theory Spec2Isabelle
  imports Main "HOL-Library.Word"
begin

section \<open>Circuit breaker (lib/circuitBreaker.js)\<close>

text \<open>
  The breaker is one mutable object with three fields. Each method becomes a function
  from the old object to the new one; \<^verbatim>\<open>Date.now()\<close> is an argument (milliseconds,
  an integer). \<^verbatim>\<open>failCount\<close> starts at 0 and is only ever incremented or reset,
  so it is a natural number.
\<close>

datatype STATE = CLOSED | OPEN | HALF_OPEN

definition FAILURE_THRESHOLD :: nat where
  "FAILURE_THRESHOLD = 3"

definition COOLDOWN_MS :: int where
  "COOLDOWN_MS = 30000"

record CircuitBreaker =
  state :: STATE
  failCount :: nat
  nextAttempt :: int

text \<open>The constructor: \<^verbatim>\<open>nextAttempt = Date.now()\<close>.\<close>

definition new_CircuitBreaker :: "int \<Rightarrow> CircuitBreaker" where
  "new_CircuitBreaker now = \<lparr>state = CLOSED, failCount = 0, nextAttempt = now\<rparr>"

text \<open>
  \<^verbatim>\<open>canExecute()\<close> returns the answer and the object as it leaves it: the flip to
  \<^verbatim>\<open>HALF_OPEN\<close> is its only side effect.
\<close>

definition canExecute :: "int \<Rightarrow> CircuitBreaker \<Rightarrow> bool \<times> CircuitBreaker" where
  "canExecute now b =
     (if state b = CLOSED then (True, b)
      else if state b = OPEN then
        (if now \<ge> nextAttempt b then (True, b\<lparr>state := HALF_OPEN\<rparr>) else (False, b))
      else (True, b))"

definition recordSuccess :: "CircuitBreaker \<Rightarrow> CircuitBreaker" where
  "recordSuccess b = b\<lparr>failCount := 0, state := CLOSED\<rparr>"

definition recordFailure :: "int \<Rightarrow> CircuitBreaker \<Rightarrow> CircuitBreaker" where
  "recordFailure now b =
     (if state b = HALF_OPEN then b\<lparr>state := OPEN, nextAttempt := now + COOLDOWN_MS\<rparr>
      else
        (let b' = b\<lparr>failCount := failCount b + 1\<rparr> in
         if failCount b' \<ge> FAILURE_THRESHOLD
         then b'\<lparr>state := OPEN, nextAttempt := now + COOLDOWN_MS\<rparr>
         else b'))"

text \<open>\<^verbatim>\<open>getState()\<close>: a pure read of two fields.\<close>

definition getState :: "CircuitBreaker \<Rightarrow> STATE \<times> nat" where
  "getState b = (state b, failCount b)"

text \<open>
  A run of \<^verbatim>\<open>canExecute()\<close> calls with nothing recorded in between: the calls' clock
  readings in, their answers and the final object out.
\<close>

fun canExecute_calls :: "int list \<Rightarrow> CircuitBreaker \<Rightarrow> bool list \<times> CircuitBreaker" where
  "canExecute_calls [] b = ([], b)"
| "canExecute_calls (t # ts) b =
     (let (r, b1) = canExecute t b; (rs, b2) = canExecute_calls ts b1 in (r # rs, b2))"

text \<open>The breaker after three failures in a row on a fresh object, all at time 0.\<close>

definition tripped_at_0 :: CircuitBreaker where
  "tripped_at_0 = recordFailure 0 (recordFailure 0 (recordFailure 0 (new_CircuitBreaker 0)))"

section \<open>JavaScript strings and Node buffers\<close>

text \<open>
  A JavaScript string is a sequence of 16-bit code units; a Node \<^verbatim>\<open>Buffer\<close> is a
  sequence of bytes. \<open>js\<close> turns an ASCII literal of this theory into the string it
  denotes.
\<close>

type_synonym jschar = "16 word"
type_synonym jsstring = "jschar list"
type_synonym byte = "8 word"

definition js :: "string \<Rightarrow> jsstring" where
  "js s = map of_char s"

definition unit_of :: "nat \<Rightarrow> jschar" where
  "unit_of n = of_nat n"

definition byte_of :: "nat \<Rightarrow> byte" where
  "byte_of n = of_nat n"

subsection \<open>Character classes\<close>

text \<open>
  A character class is a list of inclusive ranges of code units. \<open>space_class\<close> is
  ECMAScript's WhiteSpace and LineTerminator (what \<^verbatim>\<open>\s\<close> matches and
  \<^verbatim>\<open>trim()\<close> strips); \<open>word_class\<close> is \<^verbatim>\<open>\w\<close>, which decides \<^verbatim>\<open>\b\<close>;
  \<open>digit_class\<close> is \<^verbatim>\<open>\d\<close>.
\<close>

type_synonym char_class = "(nat \<times> nat) list"

definition rng :: "char \<Rightarrow> char \<Rightarrow> nat \<times> nat" where
  "rng a b = (of_char a, of_char b)"

definition chr1 :: "char \<Rightarrow> nat \<times> nat" where
  "chr1 a = (of_char a, of_char a)"

definition in_class :: "char_class \<Rightarrow> jschar \<Rightarrow> bool" where
  "in_class cls c = list_ex (\<lambda>(lo, hi). lo \<le> unat c \<and> unat c \<le> hi) cls"

definition word_class :: char_class where
  "word_class =
     [rng CHR ''A'' CHR ''Z'', rng CHR ''a'' CHR ''z'', rng CHR ''0'' CHR ''9'', chr1 CHR ''_'']"

definition digit_class :: char_class where
  "digit_class = [rng CHR ''0'' CHR ''9'']"

definition space_class :: char_class where
  "space_class =
     [(0x09, 0x0D), (0x20, 0x20), (0xA0, 0xA0), (0x1680, 0x1680), (0x2000, 0x200A),
      (0x2028, 0x2029), (0x202F, 0x202F), (0x205F, 0x205F), (0x3000, 0x3000),
      (0xFEFF, 0xFEFF)]"

text \<open>\<^verbatim>\<open>String.prototype.trim()\<close>.\<close>

definition trim :: "jsstring \<Rightarrow> jsstring" where
  "trim s = rev (dropWhile (in_class space_class) (rev (dropWhile (in_class space_class) s)))"

subsection \<open>UTF-8 (\<^verbatim>\<open>'utf8'\<close> as an input and an output encoding)\<close>

text \<open>
  Encoding a string to UTF-8 reads it as UTF-16: a high surrogate followed by a low one
  is one code point, any other surrogate is replaced by U+FFFD, as Node writes strings
  into buffers.
\<close>

definition is_high_surrogate :: "jschar \<Rightarrow> bool" where
  "is_high_surrogate c = (0xD800 \<le> unat c \<and> unat c \<le> 0xDBFF)"

definition is_low_surrogate :: "jschar \<Rightarrow> bool" where
  "is_low_surrogate c = (0xDC00 \<le> unat c \<and> unat c \<le> 0xDFFF)"

definition lone_code_point :: "jschar \<Rightarrow> nat" where
  "lone_code_point c = (if is_high_surrogate c \<or> is_low_surrogate c then 0xFFFD else unat c)"

fun code_points :: "jsstring \<Rightarrow> nat list" where
  "code_points [] = []"
| "code_points [c] = [lone_code_point c]"
| "code_points (c # d # rest) =
     (if is_high_surrogate c \<and> is_low_surrogate d
      then (0x10000 + (unat c - 0xD800) * 0x400 + (unat d - 0xDC00)) # code_points rest
      else lone_code_point c # code_points (d # rest))"

definition utf8_bytes :: "nat \<Rightarrow> byte list" where
  "utf8_bytes cp =
     (if cp < 0x80 then [byte_of cp]
      else if cp < 0x800 then [byte_of (0xC0 + cp div 0x40), byte_of (0x80 + cp mod 0x40)]
      else if cp < 0x10000 then
        [byte_of (0xE0 + cp div 0x1000), byte_of (0x80 + cp div 0x40 mod 0x40),
         byte_of (0x80 + cp mod 0x40)]
      else
        [byte_of (0xF0 + cp div 0x40000), byte_of (0x80 + cp div 0x1000 mod 0x40),
         byte_of (0x80 + cp div 0x40 mod 0x40), byte_of (0x80 + cp mod 0x40)])"

definition utf8_encode :: "jsstring \<Rightarrow> byte list" where
  "utf8_encode s = concat (map utf8_bytes (code_points s))"

text \<open>
  A string is well formed when it has no unpaired surrogate
  (\<^verbatim>\<open>String.prototype.isWellFormed\<close>).
\<close>

fun well_formed :: "jsstring \<Rightarrow> bool" where
  "well_formed [] = True"
| "well_formed [c] = (\<not> is_high_surrogate c \<and> \<not> is_low_surrogate c)"
| "well_formed (c # d # rest) =
     (if is_high_surrogate c then is_low_surrogate d \<and> well_formed rest
      else \<not> is_low_surrogate c \<and> well_formed (d # rest))"

text \<open>
  Decoding bytes as UTF-8 yields UTF-16 code units; every maximal ill-formed byte
  sequence becomes one U+FFFD.
\<close>

definition utf16_units :: "nat \<Rightarrow> jsstring" where
  "utf16_units cp =
     (if cp < 0x10000 then [unit_of cp]
      else [unit_of (0xD800 + (cp - 0x10000) div 0x400),
            unit_of (0xDC00 + (cp - 0x10000) mod 0x400)])"

definition byte_in :: "byte \<Rightarrow> nat \<Rightarrow> nat \<Rightarrow> bool" where
  "byte_in b lo hi = (lo \<le> unat b \<and> unat b \<le> hi)"

definition low6 :: "byte \<Rightarrow> nat" where
  "low6 b = unat b mod 0x40"

fun utf8_decode :: "byte list \<Rightarrow> jsstring" where
  "utf8_decode [] = []"
| "utf8_decode (b # bs) =
     (if unat b < 0x80 then unit_of (unat b) # utf8_decode bs
      else if byte_in b 0xC2 0xDF then
        (case bs of
           [] \<Rightarrow> [unit_of 0xFFFD]
         | c1 # r1 \<Rightarrow>
             if byte_in c1 0x80 0xBF
             then utf16_units ((unat b - 0xC0) * 0x40 + low6 c1) @ utf8_decode r1
             else unit_of 0xFFFD # utf8_decode bs)
      else if byte_in b 0xE0 0xEF then
        (case bs of
           [] \<Rightarrow> [unit_of 0xFFFD]
         | c1 # r1 \<Rightarrow>
             if byte_in c1 (if unat b = 0xE0 then 0xA0 else 0x80)
                           (if unat b = 0xED then 0x9F else 0xBF)
             then (case r1 of
                     [] \<Rightarrow> [unit_of 0xFFFD]
                   | c2 # r2 \<Rightarrow>
                       if byte_in c2 0x80 0xBF
                       then utf16_units ((unat b - 0xE0) * 0x1000 + low6 c1 * 0x40 + low6 c2)
                              @ utf8_decode r2
                       else unit_of 0xFFFD # utf8_decode r1)
             else unit_of 0xFFFD # utf8_decode bs)
      else if byte_in b 0xF0 0xF4 then
        (case bs of
           [] \<Rightarrow> [unit_of 0xFFFD]
         | c1 # r1 \<Rightarrow>
             if byte_in c1 (if unat b = 0xF0 then 0x90 else 0x80)
                           (if unat b = 0xF4 then 0x8F else 0xBF)
             then (case r1 of
                     [] \<Rightarrow> [unit_of 0xFFFD]
                   | c2 # r2 \<Rightarrow>
                       if byte_in c2 0x80 0xBF
                       then (case r2 of
                               [] \<Rightarrow> [unit_of 0xFFFD]
                             | c3 # r3 \<Rightarrow>
                                 if byte_in c3 0x80 0xBF
                                 then utf16_units ((unat b - 0xF0) * 0x40000
                                        + low6 c1 * 0x1000 + low6 c2 * 0x40 + low6 c3)
                                        @ utf8_decode r3
                                 else unit_of 0xFFFD # utf8_decode r2)
                       else unit_of 0xFFFD # utf8_decode r1)
             else unit_of 0xFFFD # utf8_decode bs)
      else unit_of 0xFFFD # utf8_decode bs)"

subsection \<open>Hexadecimal (\<^verbatim>\<open>'hex'\<close>)\<close>

text \<open>
  \<^verbatim>\<open>buf.toString('hex')\<close> writes two lower-case digits per byte.
  \<^verbatim>\<open>Buffer.from(s, 'hex')\<close> reads pairs of hexadecimal digits (either case) and stops,
  without an error, at the first pair that is not two such digits; a trailing single
  character is dropped. The decoder reads each code unit as a byte: of a code unit above
  U+00FF it sees the low byte only, so U+0130 is read as the digit \<^verbatim>\<open>0\<close>.
\<close>

definition hex_digit :: "nat \<Rightarrow> jschar" where
  "hex_digit n = unit_of (if n < 10 then 48 + n else 87 + n)"

definition hex_encode :: "byte list \<Rightarrow> jsstring" where
  "hex_encode bs = concat (map (\<lambda>b. [hex_digit (unat b div 16), hex_digit (unat b mod 16)]) bs)"

definition unhex :: "jschar \<Rightarrow> nat option" where
  "unhex c =
     (let u = unat c mod 256
      in if 48 \<le> u \<and> u \<le> 57 then Some (u - 48)
         else if 97 \<le> u \<and> u \<le> 102 then Some (u - 87)
         else if 65 \<le> u \<and> u \<le> 70 then Some (u - 55)
         else None)"

fun hex_decode :: "jsstring \<Rightarrow> byte list" where
  "hex_decode (a # b # rest) =
     (case unhex a of
        None \<Rightarrow> []
      | Some x \<Rightarrow> (case unhex b of
                     None \<Rightarrow> []
                   | Some y \<Rightarrow> byte_of (x * 16 + y) # hex_decode rest))"
| "hex_decode _ = []"

definition is_hex_string :: "jsstring \<Rightarrow> bool" where
  "is_hex_string s = list_all (\<lambda>c. unhex c \<noteq> None) s"

section \<open>Redaction (lib/sanitizer.js)\<close>

subsection \<open>Regular expressions\<close>

text \<open>
  The three patterns of the source use character classes, \<^verbatim>\<open>\b\<close>, concatenation,
  the greedy quantifiers \<^verbatim>\<open>?\<close>, \<^verbatim>\<open>{n}\<close>, and \<^verbatim>\<open>+\<close> and \<^verbatim>\<open>{n,}\<close> on a
  character class. A position in the subject is the code unit before it (if any) and the
  text after it. \<open>matches r p\<close> lists the positions at which a match of \<open>r\<close> started at
  \<open>p\<close> can end, in the order in which a backtracking matcher tries them: its first
  element is the match ECMAScript reports.
\<close>

datatype regex =
    Eps
  | Class char_class
  | WordBoundary
  | Cat regex regex
  | Opt regex
  | Times nat regex
  | AtLeast nat char_class

type_synonym pos = "jschar option \<times> jsstring"

definition is_word_before :: "pos \<Rightarrow> bool" where
  "is_word_before p = (case fst p of None \<Rightarrow> False | Some c \<Rightarrow> in_class word_class c)"

definition is_word_after :: "pos \<Rightarrow> bool" where
  "is_word_after p = (case snd p of [] \<Rightarrow> False | c # _ \<Rightarrow> in_class word_class c)"

fun step_class :: "char_class \<Rightarrow> pos \<Rightarrow> pos list" where
  "step_class cls (p, []) = []"
| "step_class cls (p, c # cs) = (if in_class cls c then [(Some c, cs)] else [])"

text \<open>Zero or more characters of a class, the longest run first.\<close>

fun greedy_run :: "char_class \<Rightarrow> jschar option \<Rightarrow> jsstring \<Rightarrow> pos list" where
  "greedy_run cls p [] = [(p, [])]"
| "greedy_run cls p (c # cs) =
     (if in_class cls c then greedy_run cls (Some c) cs else []) @ [(p, c # cs)]"

primrec iter :: "nat \<Rightarrow> (pos \<Rightarrow> pos list) \<Rightarrow> pos \<Rightarrow> pos list" where
  "iter 0 f p = [p]"
| "iter (Suc n) f p = concat (map (iter n f) (f p))"

primrec matches :: "regex \<Rightarrow> pos \<Rightarrow> pos list" where
  "matches Eps p = [p]"
| "matches (Class cls) p = step_class cls p"
| "matches WordBoundary p = (if is_word_before p \<noteq> is_word_after p then [p] else [])"
| "matches (Cat a b) p = concat (map (matches b) (matches a p))"
| "matches (Opt a) p = matches a p @ [p]"
| "matches (Times n a) p = iter n (matches a) p"
| "matches (AtLeast n cls) p =
     concat (map (\<lambda>q. greedy_run cls (fst q) (snd q)) (iter n (step_class cls) p))"

definition seq :: "regex list \<Rightarrow> regex" where
  "seq rs = foldr Cat rs Eps"

text \<open>The length of the match of \<open>r\<close> that starts right here, if there is one.\<close>

definition match_at :: "regex \<Rightarrow> jschar option \<Rightarrow> jsstring \<Rightarrow> nat option" where
  "match_at r p s =
     (case matches r (p, s) of [] \<Rightarrow> None | q # _ \<Rightarrow> Some (length s - length (snd q)))"

text \<open>
  \<^verbatim>\<open>str.replace(/r/g, tag)\<close> for a tag without \<^verbatim>\<open>$\<close>: scan from the left; where a
  match starts, write the tag and resume after the match (\<open>k\<close> counts the code units of
  the match still to skip); elsewhere copy the code unit. After an empty match the scan
  copies one code unit and moves on.
\<close>

fun replace_scan :: "regex \<Rightarrow> jsstring \<Rightarrow> nat \<Rightarrow> jschar option \<Rightarrow> jsstring \<Rightarrow> jsstring" where
  "replace_scan r tag k p [] = (if k = 0 \<and> match_at r p [] \<noteq> None then tag else [])"
| "replace_scan r tag k p (c # cs) =
     (if k > 0 then replace_scan r tag (k - 1) (Some c) cs
      else case match_at r p (c # cs) of
             None \<Rightarrow> c # replace_scan r tag 0 (Some c) cs
           | Some n \<Rightarrow>
               if n = 0 then tag @ c # replace_scan r tag 0 (Some c) cs
               else tag @ replace_scan r tag (n - 1) (Some c) cs)"

definition replace_all :: "regex \<Rightarrow> jsstring \<Rightarrow> jsstring \<Rightarrow> jsstring" where
  "replace_all r tag s = replace_scan r tag 0 None s"

subsection \<open>The three patterns and \<^verbatim>\<open>sanitizeMessage\<close>\<close>

text \<open>\<^verbatim>\<open>/\b[A-Za-z0-9._%+-]+@[A-Za-z0-9.-]+\.[A-Za-z]{2,}\b/g\<close>\<close>

definition email_local_class :: char_class where
  "email_local_class =
     [rng CHR ''A'' CHR ''Z'', rng CHR ''a'' CHR ''z'', rng CHR ''0'' CHR ''9'',
      chr1 CHR ''.'', chr1 CHR ''_'', chr1 CHR ''%'', chr1 CHR ''+'', chr1 CHR ''-'']"

definition email_domain_class :: char_class where
  "email_domain_class =
     [rng CHR ''A'' CHR ''Z'', rng CHR ''a'' CHR ''z'', rng CHR ''0'' CHR ''9'',
      chr1 CHR ''.'', chr1 CHR ''-'']"

definition letter_class :: char_class where
  "letter_class = [rng CHR ''A'' CHR ''Z'', rng CHR ''a'' CHR ''z'']"

definition emailRegex :: regex where
  "emailRegex = seq [WordBoundary,
     AtLeast 1 email_local_class,
     Class [chr1 CHR ''@''],
     AtLeast 1 email_domain_class,
     Class [chr1 CHR ''.''],
     AtLeast 2 letter_class,
     WordBoundary]"

text \<open>\<^verbatim>\<open>/\b\d{3}-?\d{2}-?\d{4}\b/g\<close>\<close>

definition ssnRegex :: regex where
  "ssnRegex = seq [WordBoundary,
     Times 3 (Class digit_class), Opt (Class [chr1 CHR ''-'']),
     Times 2 (Class digit_class), Opt (Class [chr1 CHR ''-'']),
     Times 4 (Class digit_class),
     WordBoundary]"

text \<open>\<^verbatim>\<open>/\b(?:\d{4}[-\s]?){3}\d{4}\b/g\<close>\<close>

definition cc_group :: regex where
  "cc_group = seq [Times 4 (Class digit_class), Opt (Class (chr1 CHR ''-'' # space_class))]"

definition ccRegex :: regex where
  "ccRegex = seq [WordBoundary,
     Times 3 cc_group,
     Times 4 (Class digit_class),
     WordBoundary]"

definition sanitizeMessage :: "jsstring \<Rightarrow> jsstring" where
  "sanitizeMessage message =
     (if message = [] then message
      else
        let sanitized = message;
            sanitized = replace_all emailRegex (js ''<REDACTED: EMAIL>'') sanitized;
            sanitized = replace_all ssnRegex (js ''<REDACTED: SSN>'') sanitized;
            sanitized = replace_all ccRegex (js ''<REDACTED: CREDIT_CARD>'') sanitized
        in sanitized)"

subsection \<open>Vocabulary for statements about the patterns\<close>

text \<open>
  A decimal digit (\<^verbatim>\<open>\d\<close>), a white-space character (\<^verbatim>\<open>\s\<close>), the dash, and
  an optional separator of the credit-card pattern (\<^verbatim>\<open>[-\s]?\<close>): nothing, or one
  character that is a dash or white space.
\<close>

definition is_digit :: "jschar \<Rightarrow> bool" where
  "is_digit c = in_class digit_class c"

definition is_space :: "jschar \<Rightarrow> bool" where
  "is_space c = in_class space_class c"

definition dash :: jschar where
  "dash = of_char CHR ''-''"

definition at_sign :: jschar where
  "at_sign = of_char CHR ''@''"

definition full_stop :: jschar where
  "full_stop = of_char CHR ''.''"

definition is_separator :: "jschar \<Rightarrow> bool" where
  "is_separator c = in_class (chr1 CHR ''-'' # space_class) c"

definition optional :: "jschar option \<Rightarrow> jsstring" where
  "optional x = (case x of None \<Rightarrow> [] | Some c \<Rightarrow> [c])"

text \<open>The code unit before the position that follows \<open>xs\<close>, when \<open>p\<close> is before \<open>xs\<close>.\<close>

definition last_before :: "jschar option \<Rightarrow> jsstring \<Rightarrow> jschar option" where
  "last_before p xs = (if xs = [] then p else Some (last xs))"

text \<open>
  \<open>unmatched r p xs rest\<close>: in the text \<open>xs @ rest\<close>, preceded by \<open>p\<close>, no match of \<open>r\<close>
  starts at a position inside \<open>xs\<close>. \<open>free_of r s\<close>: no match of \<open>r\<close> starts anywhere in
  \<open>s\<close>, its end included.
\<close>

fun unmatched :: "regex \<Rightarrow> jschar option \<Rightarrow> jsstring \<Rightarrow> jsstring \<Rightarrow> bool" where
  "unmatched r p [] rest = True"
| "unmatched r p (c # cs) rest =
     (match_at r p (c # cs @ rest) = None \<and> unmatched r (Some c) cs rest)"

definition free_of :: "regex \<Rightarrow> jsstring \<Rightarrow> bool" where
  "free_of r s = (unmatched r None s [] \<and> match_at r (last_before None s) [] = None)"

text \<open>
  An address of the shape the email pattern describes: a local part of the pattern's
  first class that starts with a word character, \<^verbatim>\<open>@\<close>, a domain of the pattern's
  second class, a dot and at least two letters.
\<close>

definition email_shaped :: "jsstring \<Rightarrow> jsstring \<Rightarrow> jsstring \<Rightarrow> bool" where
  "email_shaped local domain tld =
     (local \<noteq> [] \<and> list_all (in_class email_local_class) local
      \<and> in_class word_class (hd local)
      \<and> domain \<noteq> [] \<and> list_all (in_class email_domain_class) domain
      \<and> 2 \<le> length tld \<and> list_all (in_class letter_class) tld)"

text \<open>\<open>starts_with y l\<close>: the list \<open>l\<close> begins with \<open>y\<close>.\<close>

definition starts_with :: "'a \<Rightarrow> 'a list \<Rightarrow> bool" where
  "starts_with y l = (\<exists>t. l = y # t)"

text \<open>
  \<open>digit_runs s\<close>: the lengths of the maximal runs of digits of \<open>s\<close>, from left to right
  (\<open>digit_runs_from k\<close> when \<open>k\<close> digits of a run have been read already).
\<close>

fun digit_runs_from :: "nat \<Rightarrow> jsstring \<Rightarrow> nat list" where
  "digit_runs_from k [] = (if k = 0 then [] else [k])"
| "digit_runs_from k (c # cs) =
     (if is_digit c then digit_runs_from (Suc k) cs
      else (if k = 0 then [] else [k]) @ digit_runs_from 0 cs)"

definition digit_runs :: "jsstring \<Rightarrow> nat list" where
  "digit_runs s = digit_runs_from 0 s"

section \<open>Key configuration and the cipher (lib/crypto.js)\<close>

text \<open>
  Everything the source can throw is a value of \<open>error\<close>; a function that can throw
  returns \<open>error + 'a\<close>. The first two are the \<^verbatim>\<open>Error\<close>s of \<^verbatim>\<open>getEncryptionKey\<close>,
  the others come out of the runtime: \<^verbatim>\<open>createCipheriv\<close> and
  \<^verbatim>\<open>createDecipheriv\<close> refuse a key that is not 32 bytes long, \<^verbatim>\<open>JSON.parse\<close>
  and the field reads refuse a text that is not the envelope, \<^verbatim>\<open>decipher.update\<close>
  refuses a hexadecimal input of odd length, and \<^verbatim>\<open>decipher.final\<close> refuses a tag
  that does not verify.
\<close>

datatype error =
    KeyNotDefined
  | KeyNot64Characters
  | InvalidKeyLength
  | EnvelopeUnreadable
  | OddLengthHex
  | UnableToAuthenticate

text \<open>
  \<^verbatim>\<open>getEncryptionKey\<close>: the argument is \<^verbatim>\<open>process.env.AUDIT_ENCRYPTION_KEY\<close>, a
  string or undefined.
\<close>

definition getEncryptionKey :: "jsstring option \<Rightarrow> error + byte list" where
  "getEncryptionKey keyHex =
     (case keyHex of
        None \<Rightarrow> Inl KeyNotDefined
      | Some k \<Rightarrow>
          if k = [] then Inl KeyNotDefined
          else if length k \<noteq> 64 then Inl KeyNot64Characters
          else Inr (hex_decode k))"

text \<open>
  The envelope before it is serialised: three hexadecimal strings.
\<close>

record blob =
  iv :: jsstring
  ciphertext :: jsstring
  authTag :: jsstring

text \<open>
  The runtime's part of the cipher is a parameter of the model:
  \<^item> \<open>gcm_seal key iv plaintext\<close> is the ciphertext and the tag that
    \<^verbatim>\<open>createCipheriv('aes-256-gcm', key, iv)\<close>, \<^verbatim>\<open>update\<close>, \<^verbatim>\<open>final\<close> and
    \<^verbatim>\<open>getAuthTag\<close> produce;
  \<^item> \<open>gcm_open key iv tag ciphertext\<close> is the plaintext that
    \<^verbatim>\<open>createDecipheriv\<close>, \<^verbatim>\<open>setAuthTag\<close>, \<^verbatim>\<open>update\<close> and \<^verbatim>\<open>final\<close>
    produce, \<open>None\<close> when one of them throws;
  \<^item> \<open>blob_to_base64 b\<close> is \<^verbatim>\<open>Buffer.from(JSON.stringify(b)).toString('base64')\<close>;
  \<^item> \<open>base64_to_blob s\<close> is
    \<^verbatim>\<open>JSON.parse(Buffer.from(s, 'base64').toString('utf8'))\<close> with its three fields
    read as strings, \<open>None\<close> when that throws.
\<close>

record node_runtime =
  gcm_seal :: "byte list \<Rightarrow> byte list \<Rightarrow> byte list \<Rightarrow> byte list \<times> byte list"
  gcm_open :: "byte list \<Rightarrow> byte list \<Rightarrow> byte list \<Rightarrow> byte list \<Rightarrow> byte list option"
  blob_to_base64 :: "blob \<Rightarrow> jsstring"
  base64_to_blob :: "jsstring \<Rightarrow> blob option"

text \<open>
  What the model assumes of the runtime: with a 32-byte key and a 12-byte nonce, opening
  what was sealed gives the plaintext back; and parsing a serialised envelope of
  hexadecimal strings gives the envelope back.
\<close>

definition runtime_round_trips :: "node_runtime \<Rightarrow> bool" where
  "runtime_round_trips rt =
     ((\<forall>key nonce plain. length key = 32 \<and> length nonce = 12 \<longrightarrow>
          gcm_open rt key nonce (snd (gcm_seal rt key nonce plain))
            (fst (gcm_seal rt key nonce plain)) = Some plain)
      \<and> (\<forall>b. is_hex_string (iv b) \<and> is_hex_string (ciphertext b) \<and> is_hex_string (authTag b)
            \<longrightarrow> base64_to_blob rt (blob_to_base64 rt b) = Some b))"

text \<open>
  \<^verbatim>\<open>encrypt(text)\<close>. The process environment's key variable and the twelve bytes of
  \<^verbatim>\<open>crypto.randomBytes(12)\<close> are arguments.
\<close>

definition encrypt :: "node_runtime \<Rightarrow> jsstring option \<Rightarrow> byte list \<Rightarrow> jsstring \<Rightarrow> error + jsstring" where
  "encrypt rt keyHex nonce text =
     (case getEncryptionKey keyHex of
        Inl e \<Rightarrow> Inl e
      | Inr key \<Rightarrow>
          if length key \<noteq> 32 then Inl InvalidKeyLength
          else
            let sealed = gcm_seal rt key nonce (utf8_encode text);
                encrypted = hex_encode (fst sealed);
                tag = hex_encode (snd sealed);
                b = \<lparr>iv = hex_encode nonce, ciphertext = encrypted, authTag = tag\<rparr>
            in Inr (blob_to_base64 rt b))"

text \<open>\<^verbatim>\<open>decrypt(encryptedBase64)\<close>.\<close>

definition decrypt :: "node_runtime \<Rightarrow> jsstring option \<Rightarrow> jsstring \<Rightarrow> error + jsstring" where
  "decrypt rt keyHex encryptedBase64 =
     (case getEncryptionKey keyHex of
        Inl e \<Rightarrow> Inl e
      | Inr key \<Rightarrow>
          (case base64_to_blob rt encryptedBase64 of
             None \<Rightarrow> Inl EnvelopeUnreadable
           | Some b \<Rightarrow>
               if length key \<noteq> 32 then Inl InvalidKeyLength
               else if odd (length (ciphertext b)) then Inl OddLengthHex
               else
                 (case gcm_open rt key (hex_decode (iv b)) (hex_decode (authTag b))
                         (hex_decode (ciphertext b)) of
                    None \<Rightarrow> Inl UnableToAuthenticate
                  | Some plain \<Rightarrow> Inr (utf8_decode plain))))"

subsection \<open>Authentication tags of fewer than sixteen bytes\<close>

text \<open>
  The lengths in bytes that a GCM tag may have (NIST SP 800-38D, section 5.2.1.2).
  \<^verbatim>\<open>getAuthTag\<close> returns sixteen bytes. \<^verbatim>\<open>decrypt\<close> calls
  \<^verbatim>\<open>createDecipheriv(ALGORITHM, key, iv)\<close> without the \<^verbatim>\<open>authTagLength\<close>
  option and never looks at the length of \<^verbatim>\<open>blob.authTag\<close>; the runtime
  (\<^verbatim>\<open>node:18\<close>) then takes in \<^verbatim>\<open>setAuthTag\<close> a tag of any of these lengths, and
  \<^verbatim>\<open>final\<close> compares as many bytes as it was given. \<open>node_tag_handling\<close> says so of a
  runtime: the tag of a 32-byte key has sixteen bytes, and where a tag is accepted its
  first \<open>n\<close> bytes are accepted too, for each of these lengths \<open>n\<close>.
\<close>

definition gcm_tag_lengths :: "nat set" where
  "gcm_tag_lengths = {4, 8, 12, 13, 14, 15, 16}"

definition node_tag_handling :: "node_runtime \<Rightarrow> bool" where
  "node_tag_handling rt =
     ((\<forall>key nonce plain. length key = 32 \<longrightarrow> length (snd (gcm_seal rt key nonce plain)) = 16)
      \<and> (\<forall>key nonce tag cipher plain n.
            n \<in> gcm_tag_lengths \<and> gcm_open rt key nonce tag cipher = Some plain
            \<longrightarrow> gcm_open rt key nonce (take n tag) cipher = Some plain))"

text \<open>
  \<open>sealed_blob\<close> is the envelope that \<^verbatim>\<open>encrypt\<close> builds and serialises under a key
  that passes \<^verbatim>\<open>getEncryptionKey\<close>; \<open>cut_tag n\<close> is an envelope with its tag cut to
  the first \<open>n\<close> bytes (\<open>2 * n\<close> hexadecimal digits).
\<close>

definition sealed_blob :: "node_runtime \<Rightarrow> jsstring \<Rightarrow> byte list \<Rightarrow> jsstring \<Rightarrow> blob" where
  "sealed_blob rt keyHex nonce text =
     (let sealed = gcm_seal rt (hex_decode keyHex) nonce (utf8_encode text)
      in \<lparr>iv = hex_encode nonce, ciphertext = hex_encode (fst sealed),
          authTag = hex_encode (snd sealed)\<rparr>)"

definition cut_tag :: "nat \<Rightarrow> blob \<Rightarrow> blob" where
  "cut_tag n b = b\<lparr>authTag := take (2 * n) (authTag b)\<rparr>"

subsection \<open>A small runtime to run the model on\<close>

text \<open>
  An instance of \<open>node_runtime\<close> that satisfies \<open>runtime_round_trips\<close> and
  \<open>node_tag_handling\<close>, for evaluating the functions above on concrete inputs: the
  cipher adds the key's first byte to every byte; the tag is the first sixteen bytes of
  the key, each with the sum of the nonce and the ciphertext added; a tag is accepted when
  it has one of the lengths of \<open>gcm_tag_lengths\<close> and is the beginning of that tag; and
  the envelope is serialised as its three fields separated by \<^verbatim>\<open>|\<close>.
\<close>

definition toy_tag :: "byte list \<Rightarrow> byte list \<Rightarrow> byte list \<Rightarrow> byte list" where
  "toy_tag key nonce cipher = map (\<lambda>b. b + sum_list (nonce @ cipher)) (take 16 key)"

definition toy_seal :: "byte list \<Rightarrow> byte list \<Rightarrow> byte list \<Rightarrow> byte list \<times> byte list" where
  "toy_seal key nonce plain =
     (map (\<lambda>b. b + hd key) plain, toy_tag key nonce (map (\<lambda>b. b + hd key) plain))"

definition toy_open :: "byte list \<Rightarrow> byte list \<Rightarrow> byte list \<Rightarrow> byte list \<Rightarrow> byte list option" where
  "toy_open key nonce tag cipher =
     (if length tag \<in> gcm_tag_lengths \<and> tag = take (length tag) (toy_tag key nonce cipher)
      then Some (map (\<lambda>b. b - hd key) cipher) else None)"

definition bar :: jschar where
  "bar = of_char CHR ''|''"

definition toy_to_base64 :: "blob \<Rightarrow> jsstring" where
  "toy_to_base64 b = iv b @ bar # ciphertext b @ bar # authTag b"

definition toy_of_base64 :: "jsstring \<Rightarrow> blob option" where
  "toy_of_base64 s =
     (let f1 = takeWhile (\<lambda>c. c \<noteq> bar) s;
          r1 = dropWhile (\<lambda>c. c \<noteq> bar) s
      in case r1 of
           [] \<Rightarrow> None
         | _ # s2 \<Rightarrow>
             let f2 = takeWhile (\<lambda>c. c \<noteq> bar) s2;
                 r2 = dropWhile (\<lambda>c. c \<noteq> bar) s2
             in case r2 of
                  [] \<Rightarrow> None
                | _ # f3 \<Rightarrow> Some \<lparr>iv = f1, ciphertext = f2, authTag = f3\<rparr>)"

definition toy_runtime :: node_runtime where
  "toy_runtime = \<lparr>gcm_seal = toy_seal, gcm_open = toy_open,
     blob_to_base64 = toy_to_base64, base64_to_blob = toy_of_base64\<rparr>"

text \<open>Sixty-four characters that are hexadecimal digits; and sixty-four that are not.\<close>

definition sample_key_hex :: jsstring where
  "sample_key_hex = js ''603deb1015ca71be2b73aef0857d77811f352c073b6108d72d9810a30914dff4''"

definition sample_nonce :: "byte list" where
  "sample_nonce = [1, 2, 3, 4, 5, 6, 7, 8, 9, 10, 11, 12]"

definition not_hex_key :: jsstring where
  "not_hex_key = js ''zzzzzzzzzzzzzzzzzzzzzzzzzzzzzzzzzzzzzzzzzzzzzzzzzzzzzzzzzzzzzzzz''"

section \<open>Start-up (server.js)\<close>

text \<open>
  The start-up check: \<^verbatim>\<open>getEncryptionKey()\<close> in a \<^verbatim>\<open>try\<close>; when it throws the
  process logs and exits with status 1, otherwise it goes on to listen.
\<close>

datatype startup = Exit nat | Listening

definition server_start :: "jsstring option \<Rightarrow> startup" where
  "server_start keyHex = (case getEncryptionKey keyHex of Inl e \<Rightarrow> Exit 1 | Inr key \<Rightarrow> Listening)"

section \<open>The audit log (lib/auditLog.js)\<close>

text \<open>
  One audit record, as the route builds it. (The field \<^verbatim>\<open>id\<close> is \<open>record_id\<close> here:
  \<open>id\<close> is the identity function of HOL.)
\<close>

record audit_record =
  record_id :: jsstring
  userId :: jsstring
  createdAt :: jsstring
  originalMessageEncrypted :: jsstring
  redactedMessage :: jsstring
  aiResult :: jsstring
  circuitState :: STATE

text \<open>
  The file \<^verbatim>\<open>data/audit-log.json\<close>, by what reading it does:
  \<^item> \<open>Unreadable\<close>: \<^verbatim>\<open>fs.readFileSync\<close> throws;
  \<^item> \<open>Unparseable\<close>: the text is read and \<^verbatim>\<open>JSON.parse\<close> throws;
  \<^item> \<open>NotAnArray\<close>: the text parses to a value that is not an array, so that
    \<^verbatim>\<open>data.push\<close> throws;
  \<^item> \<open>Records rs\<close>: the text parses to the array \<open>rs\<close>.

  \<open>writable\<close> tells whether \<^verbatim>\<open>fs.writeFileSync\<close> succeeds, and \<open>console_error\<close> is
  what \<^verbatim>\<open>console.error\<close> has printed so far.
\<close>

datatype audit_file = Unreadable | Unparseable | NotAnArray | Records "audit_record list"

record storage =
  log_file :: audit_file
  writable :: bool
  console_error :: "jsstring list"

text \<open>
  The body of the \<^verbatim>\<open>try\<close> in \<^verbatim>\<open>appendAuditRecord\<close>: \<open>Inl ()\<close> where it throws,
  otherwise the array written back.
\<close>

definition read_modify_write :: "audit_record \<Rightarrow> storage \<Rightarrow> unit + audit_record list" where
  "read_modify_write r st =
     (case log_file st of
        Unreadable \<Rightarrow> Inl ()
      | NotAnArray \<Rightarrow> Inl ()
      | Unparseable \<Rightarrow> if writable st then Inr ([] @ [r]) else Inl ()
      | Records data \<Rightarrow> if writable st then Inr (data @ [r]) else Inl ())"

text \<open>
  \<^verbatim>\<open>appendAuditRecord(record)\<close>. The calls are chained on one promise, so they run one
  after the other; the \<^verbatim>\<open>catch\<close> logs and the promise resolves either way, so the
  caller never sees a failure.
\<close>

definition appendAuditRecord :: "audit_record \<Rightarrow> storage \<Rightarrow> storage" where
  "appendAuditRecord r st =
     (case read_modify_write r st of
        Inr data \<Rightarrow> st\<lparr>log_file := Records data\<rparr>
      | Inl _ \<Rightarrow> st\<lparr>console_error := console_error st @ [js ''Failed to write audit log:'']\<rparr>)"

text \<open>A record and a store to run the sink on.\<close>

definition sample_record :: audit_record where
  "sample_record = \<lparr>record_id = js ''id-1'', userId = js ''u1'',
     createdAt = js ''2024-01-01T00:00:00.000Z'', originalMessageEncrypted = js ''e'',
     redactedMessage = js ''hello'', aiResult = js ''Generated Answer.'',
     circuitState = CLOSED\<rparr>"

section \<open>The route (routes/secureInquiry.js)\<close>

text \<open>
  A field of the parsed JSON body. Only strings pass the validation; the other values
  are there so that the validation has something to reject.
\<close>

datatype js_value =
    JUndefined
  | JNull
  | JBoolean bool
  | JNumber int
  | JString jsstring
  | JObject

definition truthy :: "js_value \<Rightarrow> bool" where
  "truthy v =
     (case v of
        JUndefined \<Rightarrow> False
      | JNull \<Rightarrow> False
      | JBoolean b \<Rightarrow> b
      | JNumber n \<Rightarrow> n \<noteq> 0
      | JString s \<Rightarrow> s \<noteq> []
      | JObject \<Rightarrow> True)"

text \<open>
  \<^verbatim>\<open>!v || typeof v !== 'string' || !v.trim()\<close>
\<close>

definition rejected :: "js_value \<Rightarrow> bool" where
  "rejected v =
     (\<not> truthy v \<or> (case v of JString s \<Rightarrow> False | _ \<Rightarrow> True)
      \<or> (case v of JString s \<Rightarrow> trim s = [] | _ \<Rightarrow> True))"

record request =
  body_userId :: js_value
  body_message :: js_value
  x_mock_ai_fail :: "jsstring option"

text \<open>
  What one run of the handler reads from outside: the clock at \<^verbatim>\<open>canExecute()\<close> and
  at \<^verbatim>\<open>recordFailure()\<close>, the bytes of \<^verbatim>\<open>crypto.randomBytes(12)\<close>, the
  \<^verbatim>\<open>uuidv4()\<close> and the \<^verbatim>\<open>toISOString()\<close> of the record.
\<close>

record ambient =
  clock_canExecute :: int
  clock_recordFailure :: int
  random_bytes :: "byte list"
  uuid :: jsstring
  iso_time :: jsstring

text \<open>
  The process: the key variable of its environment, the breaker singleton and the audit
  storage.
\<close>

record process =
  env_key :: "jsstring option"
  breaker :: CircuitBreaker
  store :: storage

datatype body =
    ErrorBody jsstring
  | Reply jsstring jsstring jsstring "STATE \<times> nat"

record response =
  status :: nat
  payload :: body

text \<open>
  \<^verbatim>\<open>mockAiCall(redactedMessage, forceFail)\<close> after its two seconds: the answer, or
  \<open>None\<close> when the promise is rejected.
\<close>

definition mockAiCall :: "jsstring \<Rightarrow> bool \<Rightarrow> jsstring option" where
  "mockAiCall redacted forceFail = (if forceFail then None else Some (js ''Generated Answer.''))"

text \<open>
  The handler of \<^verbatim>\<open>POST /secure-inquiry\<close>, run from start to end on its own. An
  exception inside the \<^verbatim>\<open>try\<close> (only \<^verbatim>\<open>encrypt\<close> can throw) goes to
  \<^verbatim>\<open>next(error)\<close>, which answers 500. The last case of the definition never
  occurs: both fields have passed the validation, so both are strings.
\<close>

definition internal_error :: response where
  "internal_error = \<lparr>status = 500, payload = ErrorBody (js ''Internal Server Error'')\<rparr>"

definition secure_inquiry :: "node_runtime \<Rightarrow> ambient \<Rightarrow> request \<Rightarrow> process \<Rightarrow> response \<times> process" where
  "secure_inquiry rt amb req ps =
     (if rejected (body_userId req) then
        (\<lparr>status = 400,
          payload = ErrorBody (js ''userId is required and must be a non-empty string'')\<rparr>, ps)
      else if rejected (body_message req) then
        (\<lparr>status = 400,
          payload = ErrorBody (js ''message is required and must be a non-empty string'')\<rparr>, ps)
      else
        case (body_userId req, body_message req) of
          (JString uid, JString message) \<Rightarrow>
            (case canExecute (clock_canExecute amb) (breaker ps) of
               (False, b1) \<Rightarrow>
                 (let st = getState b1;
                      redacted = sanitizeMessage message
                  in case encrypt rt (env_key ps) (random_bytes amb) message of
                       Inl e \<Rightarrow> (internal_error, ps\<lparr>breaker := b1\<rparr>)
                     | Inr encryptedMessage \<Rightarrow>
                         (let auditRecord = \<lparr>record_id = uuid amb, userId = uid,
                                createdAt = iso_time amb,
                                originalMessageEncrypted = encryptedMessage,
                                redactedMessage = redacted,
                                aiResult = js ''Service Busy'',
                                circuitState = fst st\<rparr>
                          in (\<lparr>status = 200,
                               payload = Reply uid redacted (js ''Service Busy'') st\<rparr>,
                              ps\<lparr>breaker := b1,
                                 store := appendAuditRecord auditRecord (store ps)\<rparr>)))
             | (True, b1) \<Rightarrow>
                 (let redacted = sanitizeMessage message
                  in case encrypt rt (env_key ps) (random_bytes amb) message of
                       Inl e \<Rightarrow> (internal_error, ps\<lparr>breaker := b1\<rparr>)
                     | Inr encryptedMessage \<Rightarrow>
                         (let forceFail = (x_mock_ai_fail req = Some (js ''true''));
                              aiAnswer = mockAiCall redacted forceFail;
                              errorOccurred = (aiAnswer = None);
                              b2 = (if errorOccurred
                                    then recordFailure (clock_recordFailure amb) b1
                                    else recordSuccess b1);
                              cbState = getState b2;
                              auditRecord = \<lparr>record_id = uuid amb, userId = uid,
                                createdAt = iso_time amb,
                                originalMessageEncrypted = encryptedMessage,
                                redactedMessage = redacted,
                                aiResult = (case aiAnswer of
                                              None \<Rightarrow> js ''Error: AI call failed''
                                            | Some a \<Rightarrow> a),
                                circuitState = fst cbState\<rparr>;
                              ps' = ps\<lparr>breaker := b2,
                                       store := appendAuditRecord auditRecord (store ps)\<rparr>
                          in case aiAnswer of
                               None \<Rightarrow>
                                 (\<lparr>status = 503,
                                   payload = Reply uid redacted (js ''AI Service Unavailable'')
                                     cbState\<rparr>, ps')
                             | Some a \<Rightarrow>
                                 (\<lparr>status = 200, payload = Reply uid redacted a cbState\<rparr>,
                                  ps'))))
        | _ \<Rightarrow> (internal_error, ps))"

text \<open>The records the audit file holds once it has been read as an array.\<close>

definition stored_records :: "storage \<Rightarrow> audit_record list" where
  "stored_records st = (case log_file st of Records rs \<Rightarrow> rs | _ \<Rightarrow> [])"

text \<open>A process, a request and its surroundings to run the handler on.\<close>

definition sample_ambient :: ambient where
  "sample_ambient = \<lparr>clock_canExecute = 1000, clock_recordFailure = 3000,
     random_bytes = sample_nonce, uuid = js ''id-1'', iso_time = js ''2024-01-01T00:00:00.000Z''\<rparr>"

definition sample_process :: "CircuitBreaker \<Rightarrow> process" where
  "sample_process b = \<lparr>env_key = Some sample_key_hex, breaker = b,
     store = \<lparr>log_file = Records [], writable = True, console_error = []\<rparr>\<rparr>"

definition sample_request :: "jsstring \<Rightarrow> request" where
  "sample_request message = \<lparr>body_userId = JString (js ''u1''), body_message = JString message,
     x_mock_ai_fail = None\<rparr>"

section \<open>Properties of the circuit breaker\<close>

lemma canExecute_calls_append:
  "canExecute_calls (ts @ us) b =
     (let (rs, b1) = canExecute_calls ts b; (qs, b2) = canExecute_calls us b1 in (rs @ qs, b2))"
  by (induction ts arbitrary: b) (simp_all add: Let_def split: prod.splits)

lemma canExecute_calls_before_cooldown:
  "state b = OPEN \<Longrightarrow> \<forall>t \<in> set ts. t < nextAttempt b \<Longrightarrow>
   canExecute_calls ts b = (replicate (length ts) False, b)"
  by (induction ts) (simp_all add: canExecute_def)

lemma canExecute_calls_half_open:
  "state b = HALF_OPEN \<Longrightarrow> canExecute_calls ts b = (replicate (length ts) True, b)"
  by (induction ts) (simp_all add: canExecute_def)

lemma recordFailure_opens_window:
  "state (recordFailure t0 b0) = OPEN \<Longrightarrow> state b0 \<noteq> OPEN \<Longrightarrow>
   nextAttempt (recordFailure t0 b0) = t0 + 30000"
  by (auto simp: recordFailure_def Let_def COOLDOWN_MS_def split: if_splits)

text \<open>
  C10. Whatever the breaker's phase, counter and reopen time are, one
  \<^verbatim>\<open>recordSuccess()\<close> leaves the phase \<^verbatim>\<open>CLOSED\<close>, the counter 0 and the
  reopen time as it was; so the next \<^verbatim>\<open>canExecute()\<close> answers true at any clock
  reading, also when the breaker was \<^verbatim>\<open>OPEN\<close> and its cooldown had not elapsed.
\<close>

theorem recordSuccess_closes_from_any_state:
  "state (recordSuccess b) = CLOSED
   \<and> failCount (recordSuccess b) = 0
   \<and> nextAttempt (recordSuccess b) = nextAttempt b
   \<and> canExecute now (recordSuccess b) = (True, recordSuccess b)"
  by (simp add: recordSuccess_def canExecute_def)

text \<open>
  C3. From \<^verbatim>\<open>CLOSED\<close> with the counter at 0, three \<^verbatim>\<open>recordFailure()\<close> calls in a
  row (at any clock readings) leave the breaker \<^verbatim>\<open>OPEN\<close> with the reopen time 30
  seconds after the third call. A \<^verbatim>\<open>recordSuccess()\<close> after the first or after the
  second of the failures resets the counter to 0, and the third failure then leaves the
  breaker \<^verbatim>\<open>CLOSED\<close> (counter 2, respectively 1, reopen time untouched). After a
  success in any state, two more failures never trip the breaker.
\<close>

theorem three_failures_trip_success_resets:
  "recordFailure t3 (recordFailure t2 (recordFailure t1
       \<lparr>state = CLOSED, failCount = 0, nextAttempt = t0\<rparr>))
     = \<lparr>state = OPEN, failCount = 3, nextAttempt = t3 + 30000\<rparr>
   \<and> recordSuccess (recordFailure t1 \<lparr>state = CLOSED, failCount = 0, nextAttempt = t0\<rparr>)
     = \<lparr>state = CLOSED, failCount = 0, nextAttempt = t0\<rparr>
   \<and> recordSuccess (recordFailure t2 (recordFailure t1
       \<lparr>state = CLOSED, failCount = 0, nextAttempt = t0\<rparr>))
     = \<lparr>state = CLOSED, failCount = 0, nextAttempt = t0\<rparr>
   \<and> recordFailure t3 (recordFailure t2 (recordSuccess (recordFailure t1
       \<lparr>state = CLOSED, failCount = 0, nextAttempt = t0\<rparr>)))
     = \<lparr>state = CLOSED, failCount = 2, nextAttempt = t0\<rparr>
   \<and> recordFailure t3 (recordSuccess (recordFailure t2 (recordFailure t1
       \<lparr>state = CLOSED, failCount = 0, nextAttempt = t0\<rparr>)))
     = \<lparr>state = CLOSED, failCount = 1, nextAttempt = t0\<rparr>
   \<and> getState (recordFailure t2 (recordFailure t1 (recordSuccess b))) = (CLOSED, 2)"
  by (simp add: recordFailure_def recordSuccess_def getState_def Let_def
      FAILURE_THRESHOLD_def COOLDOWN_MS_def)

text \<open>
  C2, as the code has it. When a \<^verbatim>\<open>recordFailure()\<close> at time \<open>t0\<close> takes the breaker
  into \<^verbatim>\<open>OPEN\<close>, and nothing is recorded afterwards: every \<^verbatim>\<open>canExecute()\<close> at a
  clock reading below \<open>t0 + 30000\<close> answers false and changes nothing; the first call at
  or after \<open>t0 + 30000\<close> answers true and flips the phase to \<^verbatim>\<open>HALF_OPEN\<close>; and every
  later call answers true as well, the phase staying \<^verbatim>\<open>HALF_OPEN\<close> (the source lets
  every caller through while half-open; it keeps no probe-in-flight flag).
\<close>

theorem cooldown_then_half_open_admits_all:
  assumes "state b0 \<noteq> OPEN" and "state (recordFailure t0 b0) = OPEN"
    and "\<forall>t \<in> set early. t < t0 + 30000" and "t0 + 30000 \<le> t1"
  shows "canExecute_calls (early @ t1 # later) (recordFailure t0 b0) =
           (replicate (length early) False @ True # replicate (length later) True,
            (recordFailure t0 b0)\<lparr>state := HALF_OPEN\<rparr>)"
proof -
  let ?b = "recordFailure t0 b0"
  have mark: "nextAttempt ?b = t0 + 30000"
    by (rule recordFailure_opens_window[OF assms(2) assms(1)])
  have early: "canExecute_calls early ?b = (replicate (length early) False, ?b)"
    using assms(2,3) mark by (simp add: canExecute_calls_before_cooldown)
  have probe: "canExecute t1 ?b = (True, ?b\<lparr>state := HALF_OPEN\<rparr>)"
    using assms(2,4) mark by (simp add: canExecute_def)
  have later: "canExecute_calls later (?b\<lparr>state := HALF_OPEN\<rparr>) =
      (replicate (length later) True, ?b\<lparr>state := HALF_OPEN\<rparr>)"
    by (rule canExecute_calls_half_open) simp
  show ?thesis
    by (simp add: canExecute_calls_append early probe later)
qed

theorem cooldown_then_half_open_admits_all_witness:
  "state (recordFailure 0 (recordFailure 0 (new_CircuitBreaker 0))) \<noteq> OPEN
   \<and> state tripped_at_0 = OPEN
   \<and> canExecute_calls [0, 29999, 30000, 30001, 45000] tripped_at_0 =
       ([False, False, True, True, True], tripped_at_0\<lparr>state := HALF_OPEN\<rparr>)"
proof -
  let ?b0 = "recordFailure 0 (recordFailure 0 (new_CircuitBreaker 0))"
  have a: "state ?b0 \<noteq> OPEN"
    by (simp add: recordFailure_def new_CircuitBreaker_def Let_def FAILURE_THRESHOLD_def)
  have b: "state (recordFailure 0 ?b0) = OPEN"
    by (simp add: recordFailure_def new_CircuitBreaker_def Let_def FAILURE_THRESHOLD_def)
  have c: "\<forall>t \<in> set [0, 29999::int]. t < 0 + 30000" by simp
  have d: "(0::int) + 30000 \<le> 30000" by simp
  show ?thesis
    using cooldown_then_half_open_admits_all[OF a b c d, of "[30001, 45000]"] a b
    by (simp add: tripped_at_0_def)
qed

text \<open>
  C2 as stated fails: with the breaker tripped at time 0, the call at the 30-second mark
  answers true, and so does the next call one millisecond later, although no result has
  been recorded for the first.
\<close>

theorem probe_admitted_twice_counterexample:
  "state tripped_at_0 = OPEN \<and> nextAttempt tripped_at_0 = 30000
   \<and> fst (canExecute_calls [30000, 30001] tripped_at_0) = [True, True]"
  by (simp add: tripped_at_0_def recordFailure_def new_CircuitBreaker_def canExecute_def
      Let_def FAILURE_THRESHOLD_def COOLDOWN_MS_def)

section \<open>Lemmas on strings and buffers\<close>

lemma unat_byte_of: "n < 256 \<Longrightarrow> unat (byte_of n) = n"
  by (simp add: byte_of_def unat_of_nat)

lemma unat_unit_of: "n < 65536 \<Longrightarrow> unat (unit_of n) = n"
  by (simp add: unit_of_def unat_of_nat)

lemma unit_of_unat: "unit_of (unat c) = c"
  by (simp add: unit_of_def)

lemma byte_of_unat: "byte_of (unat b) = b"
  by (simp add: byte_of_def)

lemma unat_jschar_less: "unat (c :: jschar) < 65536"
  using unsigned_less[of c, where 'a = nat] by simp

lemma unat_byte_less: "unat (b :: byte) < 256"
  using unsigned_less[of b, where 'a = nat] by simp

subsection \<open>UTF-8 decoding undoes UTF-8 encoding on well-formed strings\<close>

lemma dec1: "unat b < 0x80 \<Longrightarrow> utf8_decode (b # r) = unit_of (unat b) # utf8_decode r"
  by simp

lemma dec2:
  "byte_in b 0xC2 0xDF \<Longrightarrow> byte_in c1 0x80 0xBF \<Longrightarrow>
   utf8_decode (b # c1 # r) = utf16_units ((unat b - 0xC0) * 0x40 + low6 c1) @ utf8_decode r"
  by (simp add: byte_in_def)

lemma dec3:
  assumes "byte_in b 0xE0 0xEF"
    and "byte_in c1 (if unat b = 0xE0 then 0xA0 else 0x80) (if unat b = 0xED then 0x9F else 0xBF)"
    and "byte_in c2 0x80 0xBF"
  shows "utf8_decode (b # c1 # c2 # r) =
     utf16_units ((unat b - 0xE0) * 0x1000 + low6 c1 * 0x40 + low6 c2) @ utf8_decode r"
proof -
  have nb: "\<not> unat b < 0x80" "\<not> byte_in b 0xC2 0xDF"
    using assms(1) by (simp_all add: byte_in_def)
  show ?thesis using assms nb by simp
qed

lemma dec4:
  assumes "byte_in b 0xF0 0xF4"
    and "byte_in c1 (if unat b = 0xF0 then 0x90 else 0x80) (if unat b = 0xF4 then 0x8F else 0xBF)"
    and "byte_in c2 0x80 0xBF" and "byte_in c3 0x80 0xBF"
  shows "utf8_decode (b # c1 # c2 # c3 # r) =
     utf16_units ((unat b - 0xF0) * 0x40000 + low6 c1 * 0x1000 + low6 c2 * 0x40 + low6 c3)
       @ utf8_decode r"
proof -
  have nb: "\<not> unat b < 0x80" "\<not> byte_in b 0xC2 0xDF" "\<not> byte_in b 0xE0 0xEF"
    using assms(1) by (simp_all add: byte_in_def)
  show ?thesis using assms nb by simp
qed

lemma digits3:
  fixes n :: nat
  obtains a b c where "n = a * 0x1000 + b * 0x40 + c" "b < 0x40" "c < 0x40"
    "n div 0x1000 = a" "n div 0x40 mod 0x40 = b" "n mod 0x40 = c"
proof -
  define a where "a = n div 0x1000"
  define b where "b = n div 0x40 mod 0x40"
  define c where "c = n mod 0x40"
  have "n mod (0x40 * 0x40) = 0x40 * (n div 0x40 mod 0x40) + n mod 0x40"
    by (rule mod_mult2_eq)
  then have h1: "n mod 0x1000 = 0x40 * b + c" by (simp add: b_def c_def)
  have h2: "a * 0x1000 + n mod 0x1000 = n" by (simp add: a_def)
  have eq: "n = a * 0x1000 + b * 0x40 + c" using h2 unfolding h1 by linarith
  have lt: "b < 0x40" "c < 0x40" by (simp_all add: b_def c_def)
  show ?thesis
    by (rule that[OF eq lt a_def[symmetric] b_def[symmetric] c_def[symmetric]])
qed

lemma digits4:
  fixes n :: nat
  obtains a b c d where "n = a * 0x40000 + b * 0x1000 + c * 0x40 + d" "b < 0x40" "c < 0x40" "d < 0x40"
    "n div 0x40000 = a" "n div 0x1000 mod 0x40 = b" "n div 0x40 mod 0x40 = c" "n mod 0x40 = d"
proof -
  define a where "a = n div 0x40000"
  define b where "b = n div 0x1000 mod 0x40"
  define c where "c = n div 0x40 mod 0x40"
  define d where "d = n mod 0x40"
  have "n mod (0x40 * 0x40) = 0x40 * (n div 0x40 mod 0x40) + n mod 0x40"
    by (rule mod_mult2_eq)
  then have h1: "n mod 0x1000 = 0x40 * c + d" by (simp add: c_def d_def)
  have "n mod (0x1000 * 0x40) = 0x1000 * (n div 0x1000 mod 0x40) + n mod 0x1000"
    by (rule mod_mult2_eq)
  then have h2: "n mod 0x40000 = 0x1000 * b + n mod 0x1000" by (simp add: b_def)
  have h3: "a * 0x40000 + n mod 0x40000 = n" by (simp add: a_def)
  have eq: "n = a * 0x40000 + b * 0x1000 + c * 0x40 + d" using h3 unfolding h2 h1 by linarith
  have lt: "b < 0x40" "c < 0x40" "d < 0x40" by (simp_all add: b_def c_def d_def)
  show ?thesis
    by (rule that[OF eq lt a_def[symmetric] b_def[symmetric] c_def[symmetric] d_def[symmetric]])
qed


lemma cont_byte:
  assumes "k < 0x40"
  shows "byte_in (byte_of (0x80 + k)) 0x80 0xBF" and "low6 (byte_of (0x80 + k)) = k"
proof -
  have u: "unat (byte_of (0x80 + k)) = 0x80 + k"
    using assms by (intro unat_byte_of) simp
  show "byte_in (byte_of (0x80 + k)) 0x80 0xBF"
    unfolding byte_in_def u using assms by simp
  have "(0x40 * 2 + k) mod 0x40 = k mod 0x40" by (rule mod_mult_self4)
  then have "(0x80 + k) mod 0x40 = k" using assms by simp
  then show "low6 (byte_of (0x80 + k)) = k"
    unfolding low6_def u .
qed

lemma decode_bytes1:
  assumes "cp < 0x80"
  shows "utf8_decode (utf8_bytes cp @ bs) = utf16_units cp @ utf8_decode bs"
proof -
  have u: "unat (byte_of cp) = cp" using assms by (intro unat_byte_of) simp
  have "utf8_bytes cp = [byte_of cp]" using assms by (simp add: utf8_bytes_def)
  moreover have "utf16_units cp = [unit_of cp]" using assms by (simp add: utf16_units_def)
  ultimately show ?thesis using dec1[of "byte_of cp" bs] u assms by simp
qed

lemma decode_bytes2:
  assumes "0x80 \<le> cp" "cp < 0x800"
  shows "utf8_decode (utf8_bytes cp @ bs) = utf16_units cp @ utf8_decode bs"
proof -
  define a where "a = cp div 0x40"
  define c where "c = cp mod 0x40"
  have "a * 0x40 + c = cp" by (simp add: a_def c_def)
  then have cp: "cp = a * 0x40 + c" by (rule sym)
  have c: "c < 0x40" by (simp add: c_def)
  have a: "2 \<le> a" "a \<le> 31" using assms cp c by linarith+
  let ?b = "byte_of (0xC0 + a)" and ?c = "byte_of (0x80 + c)"
  have u: "unat ?b = 0xC0 + a" using a by (intro unat_byte_of) simp
  have bi: "byte_in ?b 0xC2 0xDF" unfolding byte_in_def u using a by simp
  have e: "utf8_bytes cp = [?b, ?c]" using assms by (simp add: utf8_bytes_def a_def c_def)
  have v: "(unat ?b - 0xC0) * 0x40 + low6 ?c = cp" unfolding u cont_byte(2)[OF c] cp by simp
  show ?thesis unfolding e using dec2[OF bi cont_byte(1)[OF c], of bs] v by simp
qed

lemma decode_bytes3:
  assumes "0x800 \<le> cp" "cp < 0x10000" "\<not> (0xD800 \<le> cp \<and> cp \<le> 0xDFFF)"
  shows "utf8_decode (utf8_bytes cp @ bs) = utf16_units cp @ utf8_decode bs"
proof -
  obtain a b c where cp: "cp = a * 0x1000 + b * 0x40 + c" and b: "b < 0x40" and c: "c < 0x40"
    and d: "cp div 0x1000 = a" "cp div 0x40 mod 0x40 = b" "cp mod 0x40 = c"
    by (rule digits3)
  have a: "a \<le> 15" using assms(2) cp by linarith
  have lo: "a = 0 \<Longrightarrow> 0x20 \<le> b" using assms(1) cp c by linarith
  have hi: "a = 0xD \<Longrightarrow> b \<le> 0x1F" using assms(3) cp b c by linarith
  let ?b = "byte_of (0xE0 + a)" and ?c1 = "byte_of (0x80 + b)" and ?c2 = "byte_of (0x80 + c)"
  have u: "unat ?b = 0xE0 + a" using a by (intro unat_byte_of) simp
  have u1: "unat ?c1 = 0x80 + b" using b by (intro unat_byte_of) simp
  have bi: "byte_in ?b 0xE0 0xEF" unfolding byte_in_def u using a by simp
  have b1: "byte_in ?c1 (if unat ?b = 0xE0 then 0xA0 else 0x80) (if unat ?b = 0xED then 0x9F else 0xBF)"
    unfolding byte_in_def u u1 using lo hi b by simp
  have e: "utf8_bytes cp = [?b, ?c1, ?c2]" using assms by (simp add: utf8_bytes_def d)
  have v: "(unat ?b - 0xE0) * 0x1000 + low6 ?c1 * 0x40 + low6 ?c2 = cp"
    unfolding u cont_byte(2)[OF b] cont_byte(2)[OF c] cp by simp
  show ?thesis unfolding e
    using dec3[OF bi b1 cont_byte(1)[OF c], of bs] v by simp
qed

lemma decode_bytes4:
  assumes "0x10000 \<le> cp" "cp < 0x110000"
  shows "utf8_decode (utf8_bytes cp @ bs) = utf16_units cp @ utf8_decode bs"
proof -
  obtain a b c d where cp: "cp = a * 0x40000 + b * 0x1000 + c * 0x40 + d"
    and b: "b < 0x40" and c: "c < 0x40" and d: "d < 0x40"
    and q: "cp div 0x40000 = a" "cp div 0x1000 mod 0x40 = b" "cp div 0x40 mod 0x40 = c"
      "cp mod 0x40 = d"
    by (rule digits4)
  have a: "a \<le> 4" using assms(2) cp by linarith
  have lo: "a = 0 \<Longrightarrow> 0x10 \<le> b" using assms(1) cp c d by linarith
  have hi: "a = 4 \<Longrightarrow> b \<le> 0xF" using assms(2) cp by linarith
  let ?b = "byte_of (0xF0 + a)" and ?c1 = "byte_of (0x80 + b)" and ?c2 = "byte_of (0x80 + c)"
    and ?c3 = "byte_of (0x80 + d)"
  have u: "unat ?b = 0xF0 + a" using a by (intro unat_byte_of) simp
  have u1: "unat ?c1 = 0x80 + b" using b by (intro unat_byte_of) simp
  have bi: "byte_in ?b 0xF0 0xF4" unfolding byte_in_def u using a by simp
  have b1: "byte_in ?c1 (if unat ?b = 0xF0 then 0x90 else 0x80) (if unat ?b = 0xF4 then 0x8F else 0xBF)"
    unfolding byte_in_def u u1 using lo hi b by simp
  have e: "utf8_bytes cp = [?b, ?c1, ?c2, ?c3]" using assms by (simp add: utf8_bytes_def q)
  have v: "(unat ?b - 0xF0) * 0x40000 + low6 ?c1 * 0x1000 + low6 ?c2 * 0x40 + low6 ?c3 = cp"
    unfolding u cont_byte(2)[OF b] cont_byte(2)[OF c] cont_byte(2)[OF d] cp by simp
  show ?thesis unfolding e
    using dec4[OF bi b1 cont_byte(1)[OF c] cont_byte(1)[OF d], of bs] v by simp
qed

lemma decode_bytes:
  assumes "cp < 0x110000" and "\<not> (0xD800 \<le> cp \<and> cp \<le> 0xDFFF)"
  shows "utf8_decode (utf8_bytes cp @ bs) = utf16_units cp @ utf8_decode bs"
proof -
  consider "cp < 0x80" | "0x80 \<le> cp" "cp < 0x800" | "0x800 \<le> cp" "cp < 0x10000" | "0x10000 \<le> cp"
    by linarith
  then show ?thesis
    using assms by cases (simp_all add: decode_bytes1 decode_bytes2 decode_bytes3 decode_bytes4)
qed


lemma utf16_units_lone:
  "utf16_units (unat c) = [c]"
  using unat_jschar_less[of c] by (simp add: utf16_units_def unit_of_unat)

lemma utf16_units_pair:
  assumes "is_high_surrogate c" and "is_low_surrogate d"
  shows "utf16_units (0x10000 + (unat c - 0xD800) * 0x400 + (unat d - 0xDC00)) = [c, d]"
proof -
  define h where "h = unat c - 0xD800"
  define l where "l = unat d - 0xDC00"
  have h: "h < 0x400" "0xD800 + h = unat c"
    using assms(1) unfolding h_def is_high_surrogate_def by linarith+
  have l: "l < 0x400" "0xDC00 + l = unat d"
    using assms(2) unfolding l_def is_low_surrogate_def by linarith+
  have dv: "(h * 0x400 + l) div 0x400 = h" using l(1) by simp
  have md: "(h * 0x400 + l) mod 0x400 = l" using l(1) by simp
  have "utf16_units (0x10000 + h * 0x400 + l) = [unit_of (0xD800 + h), unit_of (0xDC00 + l)]"
    using l(1) by (simp add: utf16_units_def dv md add.assoc)
  then show ?thesis
    unfolding h(2) l(2) unit_of_unat by (simp add: h_def l_def)
qed

lemma pair_code_point_range:
  assumes "is_high_surrogate c" and "is_low_surrogate d"
  shows "0x10000 + (unat c - 0xD800) * 0x400 + (unat d - 0xDC00) < 0x110000"
    and "\<not> (0xD800 \<le> 0x10000 + (unat c - 0xD800) * 0x400 + (unat d - 0xDC00)
           \<and> 0x10000 + (unat c - 0xD800) * 0x400 + (unat d - 0xDC00) \<le> 0xDFFF)"
  using assms unfolding is_high_surrogate_def is_low_surrogate_def by linarith+

lemma utf8_encode_Cons_lone:
  "\<not> (is_high_surrogate c \<and> (case s of [] \<Rightarrow> False | d # _ \<Rightarrow> is_low_surrogate d)) \<Longrightarrow>
   utf8_encode (c # s) = utf8_bytes (lone_code_point c) @ utf8_encode s"
  by (cases s) (auto simp: utf8_encode_def)

lemma utf8_encode_Cons_pair:
  "is_high_surrogate c \<Longrightarrow> is_low_surrogate d \<Longrightarrow>
   utf8_encode (c # d # s) =
     utf8_bytes (0x10000 + (unat c - 0xD800) * 0x400 + (unat d - 0xDC00)) @ utf8_encode s"
  by (simp add: utf8_encode_def)

lemma decode_lone:
  assumes "\<not> is_high_surrogate c" and "\<not> is_low_surrogate c"
  shows "utf8_decode (utf8_bytes (lone_code_point c) @ bs) = c # utf8_decode bs"
proof -
  have r: "unat c < 0x110000" "\<not> (0xD800 \<le> unat c \<and> unat c \<le> 0xDFFF)"
    using assms unat_jschar_less[of c]
    by (auto simp: is_high_surrogate_def is_low_surrogate_def)
  have "lone_code_point c = unat c" using assms by (simp add: lone_code_point_def)
  then show ?thesis using decode_bytes[OF r, of bs] by (simp add: utf16_units_lone)
qed

lemma utf8_round_trip:
  "well_formed s \<Longrightarrow> utf8_decode (utf8_encode s) = s"
proof (induction s rule: well_formed.induct)
  case 1
  show ?case by (simp add: utf8_encode_def)
next
  case (2 c)
  then have c: "\<not> is_high_surrogate c" "\<not> is_low_surrogate c" by simp_all
  have "utf8_encode [c] = utf8_bytes (lone_code_point c) @ []"
    by (simp add: utf8_encode_def)
  then show ?case using decode_lone[OF c, of "[]"] by simp
next
  case (3 c d rest)
  show ?case
  proof (cases "is_high_surrogate c")
    case True
    with "3.prems" have d: "is_low_surrogate d" and wf: "well_formed rest" by simp_all
    have ih: "utf8_decode (utf8_encode rest) = rest" using "3.IH"(1)[OF True wf] .
    show ?thesis
      unfolding utf8_encode_Cons_pair[OF True d]
        decode_bytes[OF pair_code_point_range[OF True d]] utf16_units_pair[OF True d] ih
      by simp
  next
    case False
    with "3.prems" have c: "\<not> is_low_surrogate c" and wf: "well_formed (d # rest)" by simp_all
    have ih: "utf8_decode (utf8_encode (d # rest)) = d # rest" using "3.IH"(2)[OF False wf] .
    have e: "utf8_encode (c # d # rest) = utf8_bytes (lone_code_point c) @ utf8_encode (d # rest)"
      using False by (intro utf8_encode_Cons_lone) simp
    show ?thesis unfolding e decode_lone[OF False c] ih ..
  qed
qed

subsection \<open>Hexadecimal decoding undoes hexadecimal encoding\<close>

lemma unhex_hex_digit: "n < 16 \<Longrightarrow> unhex (hex_digit n) = Some n"
proof -
  assume n: "n < 16"
  have u: "unat (unit_of (if n < 10 then 48 + n else 87 + n)) = (if n < 10 then 48 + n else 87 + n)"
    using n by (intro unat_unit_of) simp
  show ?thesis unfolding hex_digit_def unhex_def u Let_def using n by auto
qed

lemma hex_round_trip: "hex_decode (hex_encode bs) = bs"
proof (induction bs)
  case Nil
  show ?case by (simp add: hex_encode_def)
next
  case (Cons b bs)
  have hi: "unat b div 16 < 16" using unat_byte_less[of b] by simp
  have lo: "unat b mod 16 < 16" by simp
  have "hex_encode (b # bs) = hex_digit (unat b div 16) # hex_digit (unat b mod 16) # hex_encode bs"
    by (simp add: hex_encode_def)
  then show ?case
    using Cons by (simp add: unhex_hex_digit[OF hi] unhex_hex_digit[OF lo] byte_of_unat)
qed

lemma is_hex_string_hex_encode: "is_hex_string (hex_encode bs)"
proof (induction bs)
  case Nil
  show ?case by (simp add: hex_encode_def is_hex_string_def)
next
  case (Cons b bs)
  have hi: "unat b div 16 < 16" using unat_byte_less[of b] by simp
  have lo: "unat b mod 16 < 16" by simp
  have "hex_encode (b # bs) = hex_digit (unat b div 16) # hex_digit (unat b mod 16) # hex_encode bs"
    by (simp add: hex_encode_def)
  then show ?case
    using Cons by (simp add: is_hex_string_def unhex_hex_digit[OF hi] unhex_hex_digit[OF lo])
qed

lemma length_hex_decode:
  "is_hex_string s \<Longrightarrow> length (hex_decode s) = length s div 2"
  by (induction s rule: hex_decode.induct) (auto simp: is_hex_string_def)

lemma length_hex_encode: "length (hex_encode bs) = 2 * length bs"
  by (induction bs) (simp_all add: hex_encode_def)

section \<open>Lemmas on the patterns\<close>

lemma iter_numeral:
  "iter (numeral k) f p = concat (map (iter (pred_numeral k) f) (f p))"
  by (simp add: numeral_eq_Suc)

lemma iter_1: "iter 1 f p = concat (map (iter 0 f) (f p))"
  using iter.simps(2)[of 0 f p] by simp

lemmas class_defs = rng_def chr1_def in_class_def word_class_def digit_class_def space_class_def
  email_local_class_def email_domain_class_def letter_class_def

lemmas run_defs = iter_numeral iter_1 js_def is_word_before_def is_word_after_def seq_def match_at_def
  replace_all_def emailRegex_def ssnRegex_def ccRegex_def cc_group_def sanitizeMessage_def Let_def

subsection \<open>What a digit, a separator and a letter belong to\<close>

lemma digit_in_classes:
  assumes "is_digit c"
  shows "in_class digit_class c" "in_class word_class c" "in_class email_local_class c"
    "in_class email_domain_class c" "\<not> in_class letter_class c"
    "\<not> in_class [chr1 CHR ''@''] c" "\<not> in_class [chr1 CHR ''.''] c"
    "\<not> in_class [chr1 CHR ''-''] c" "\<not> in_class (chr1 CHR ''-'' # space_class) c"
  using assms by (simp_all add: is_digit_def class_defs)

lemma space_in_classes:
  assumes "is_space c"
  shows "\<not> in_class digit_class c" "\<not> in_class word_class c" "\<not> in_class email_local_class c"
    "\<not> in_class email_domain_class c" "\<not> in_class letter_class c"
    "\<not> in_class [chr1 CHR ''@''] c" "\<not> in_class [chr1 CHR ''.''] c"
    "\<not> in_class [chr1 CHR ''-''] c" "in_class (chr1 CHR ''-'' # space_class) c"
  using assms by (auto simp: is_space_def class_defs)

lemma dash_in_classes:
  shows "\<not> in_class digit_class dash" "\<not> in_class word_class dash"
    "in_class email_local_class dash"
    "in_class email_domain_class dash" "\<not> in_class letter_class dash"
    "\<not> in_class [chr1 CHR ''@''] dash" "\<not> in_class [chr1 CHR ''.''] dash"
    "in_class [chr1 CHR ''-''] dash" "in_class (chr1 CHR ''-'' # space_class) dash"
  by (simp_all add: dash_def class_defs)

lemmas sym_classes = digit_in_classes space_in_classes dash_in_classes

lemmas sym_defs = iter_numeral iter_1 is_word_before_def is_word_after_def seq_def match_at_def
  replace_all_def emailRegex_def ssnRegex_def ccRegex_def cc_group_def sanitizeMessage_def Let_def

subsection \<open>Runs of digits\<close>

lemma digits_8_unchanged:
  assumes "list_all is_digit [d1, d2, d3, d4, d5, d6, d7, d8]"
  shows "sanitizeMessage [d1, d2, d3, d4, d5, d6, d7, d8] = [d1, d2, d3, d4, d5, d6, d7, d8]"
  using assms by (simp add: sym_defs sym_classes)

lemma digits_12_unchanged:
  assumes "list_all is_digit [d1, d2, d3, d4, d5, d6, d7, d8, d9, d10, d11, d12]"
  shows "sanitizeMessage [d1, d2, d3, d4, d5, d6, d7, d8, d9, d10, d11, d12]
         = [d1, d2, d3, d4, d5, d6, d7, d8, d9, d10, d11, d12]"
  using assms by (simp add: sym_defs sym_classes)

lemma digits_13_unchanged:
  assumes "list_all is_digit [d1, d2, d3, d4, d5, d6, d7, d8, d9, d10, d11, d12, d13]"
  shows "sanitizeMessage [d1, d2, d3, d4, d5, d6, d7, d8, d9, d10, d11, d12, d13]
         = [d1, d2, d3, d4, d5, d6, d7, d8, d9, d10, d11, d12, d13]"
  using assms by (simp add: sym_defs sym_classes)

lemma digits_14_unchanged:
  assumes "list_all is_digit [d1, d2, d3, d4, d5, d6, d7, d8, d9, d10, d11, d12, d13, d14]"
  shows "sanitizeMessage [d1, d2, d3, d4, d5, d6, d7, d8, d9, d10, d11, d12, d13, d14]
         = [d1, d2, d3, d4, d5, d6, d7, d8, d9, d10, d11, d12, d13, d14]"
  using assms by (simp add: sym_defs sym_classes)

lemma digits_15_unchanged:
  assumes "list_all is_digit [d1, d2, d3, d4, d5, d6, d7, d8, d9, d10, d11, d12, d13, d14, d15]"
  shows "sanitizeMessage [d1, d2, d3, d4, d5, d6, d7, d8, d9, d10, d11, d12, d13, d14, d15]
         = [d1, d2, d3, d4, d5, d6, d7, d8, d9, d10, d11, d12, d13, d14, d15]"
  using assms by (simp add: sym_defs sym_classes)

lemma digits_16_redacted:
  assumes "list_all is_digit [d1, d2, d3, d4, d5, d6, d7, d8, d9, d10, d11, d12, d13, d14, d15, d16]"
  shows "sanitizeMessage [d1, d2, d3, d4, d5, d6, d7, d8, d9, d10, d11, d12, d13, d14, d15, d16]
         = js ''<REDACTED: CREDIT_CARD>''"
  using assms by (simp add: sym_defs sym_classes)

lemma separator_cases: "is_separator c \<Longrightarrow> c = dash \<or> is_space c"
  by (auto simp: is_separator_def is_space_def dash_def in_class_def chr1_def word_eq_iff_unsigned[where 'a = nat])

lemma optional_separator_cases:
  "list_all is_separator (optional x) \<Longrightarrow>
   optional x = [] \<or> optional x = [dash] \<or> (\<exists>c. optional x = [c] \<and> is_space c)"
  by (auto simp: optional_def dest: separator_cases split: option.splits)

lemma cc_grouped_redacted:
  assumes "list_all is_digit [d1, d2, d3, d4, d5, d6, d7, d8, d9, d10, d11, d12, d13, d14, d15, d16]"
    and "list_all is_separator (optional x1 @ optional x2 @ optional x3)"
  shows "sanitizeMessage ([d1, d2, d3, d4] @ optional x1 @ [d5, d6, d7, d8] @ optional x2
           @ [d9, d10, d11, d12] @ optional x3 @ [d13, d14, d15, d16])
         = js ''<REDACTED: CREDIT_CARD>''"
proof -
  from assms(2) have a: "list_all is_separator (optional x1)"
    "list_all is_separator (optional x2)" "list_all is_separator (optional x3)" by simp_all
  from optional_separator_cases[OF a(1)] optional_separator_cases[OF a(2)]
    optional_separator_cases[OF a(3)] assms(1) show ?thesis
    by (elim disjE exE conjE) (simp_all add: sym_defs sym_classes)
qed

subsection \<open>What a match of the credit-card pattern looks like\<close>

lemma in_step_class:
  assumes "q \<in> set (step_class cls p)"
  obtains c where "snd p = c # snd q" "in_class cls c" "fst q = Some c"
  using assms by (cases p; cases "snd p") (auto split: if_splits)

lemma in_iter_step_class:
  assumes "q \<in> set (iter n (step_class cls) p)"
  shows "\<exists>xs. length xs = n \<and> list_all (in_class cls) xs \<and> snd p = xs @ snd q
           \<and> fst q = (if xs = [] then fst p else Some (last xs))"
  using assms
proof (induction n arbitrary: p)
  case 0
  then show ?case by simp
next
  case (Suc n)
  then obtain m where m: "m \<in> set (step_class cls p)" and q: "q \<in> set (iter n (step_class cls) m)"
    by auto
  from m obtain c where c: "snd p = c # snd m" "in_class cls c" "fst m = Some c"
    by (rule in_step_class)
  from Suc.IH[OF q] obtain xs where xs: "length xs = n" "list_all (in_class cls) xs"
    "snd m = xs @ snd q" "fst q = (if xs = [] then fst m else Some (last xs))" by blast
  show ?case
    by (rule exI[of _ "c # xs"]) (use c xs in auto)
qed

lemma matches_Class_fun: "matches (Class cls) = step_class cls"
  by (rule ext) simp

lemma in_iter_Suc:
  "q \<in> set (iter (Suc n) f p) \<longleftrightarrow> (\<exists>m \<in> set (f p). q \<in> set (iter n f m))"
  by auto

lemma in_cc_group:
  assumes "q \<in> set (matches cc_group p)"
  shows "\<exists>g x. length g = 4 \<and> list_all is_digit g \<and> list_all is_separator (optional x)
           \<and> snd p = g @ optional x @ snd q"
proof -
  have "\<exists>m. m \<in> set (iter 4 (step_class digit_class) p)
          \<and> (q = m \<or> q \<in> set (step_class (chr1 CHR ''-'' # space_class) m))"
    using assms unfolding cc_group_def seq_def by (fastforce simp: matches_Class_fun)
  then obtain m where m: "m \<in> set (iter 4 (step_class digit_class) p)"
    and q: "q = m \<or> q \<in> set (step_class (chr1 CHR ''-'' # space_class) m)"
    by blast
  from in_iter_step_class[OF m] obtain g where g: "length g = 4"
    "list_all (in_class digit_class) g" "snd p = g @ snd m" by blast
  from q show ?thesis
  proof
    assume "q = m"
    then show ?thesis
      using g by (intro exI[of _ g] exI[of _ None]) (simp add: optional_def is_digit_def[abs_def])
  next
    assume "q \<in> set (step_class (chr1 CHR ''-'' # space_class) m)"
    then obtain c where c: "snd m = c # snd q" "in_class (chr1 CHR ''-'' # space_class) c"
      by (rule in_step_class)
    then show ?thesis
      using g by (intro exI[of _ g] exI[of _ "Some c"])
        (simp add: optional_def is_digit_def[abs_def] is_separator_def)
  qed
qed

lemma cc_match_shape:
  assumes "match_at ccRegex p s = Some n"
  shows "\<exists>g1 x1 g2 x2 g3 x3 g4 rest.
           s = g1 @ optional x1 @ g2 @ optional x2 @ g3 @ optional x3 @ g4 @ rest
           \<and> n = length (g1 @ optional x1 @ g2 @ optional x2 @ g3 @ optional x3 @ g4)
           \<and> list_all is_digit (g1 @ g2 @ g3 @ g4)
           \<and> length g1 = 4 \<and> length g2 = 4 \<and> length g3 = 4 \<and> length g4 = 4
           \<and> list_all is_separator (optional x1 @ optional x2 @ optional x3)
           \<and> \<not> is_word_before (p, s) \<and> \<not> is_word_after (Some (last g4), rest)"
proof -
  from assms obtain q where hd: "matches ccRegex (p, s) \<noteq> []"
    and n: "n = length s - length (snd q)" and q: "q \<in> set (matches ccRegex (p, s))"
    by (auto simp: match_at_def split: list.splits)
  have cc: "ccRegex = Cat WordBoundary (Cat (Times 3 cc_group)
              (Cat (Times 4 (Class digit_class)) (Cat WordBoundary Eps)))"
    by (simp add: ccRegex_def seq_def)
  have b0: "is_word_before (p, s) \<noteq> is_word_after (p, s)"
    using q unfolding cc by (auto split: if_splits)
  have "\<exists>m3. m3 \<in> set (iter 3 (matches cc_group) (p, s))
          \<and> q \<in> set (iter 4 (step_class digit_class) m3)
          \<and> is_word_before q \<noteq> is_word_after q"
    using q unfolding cc by (fastforce simp: matches_Class_fun split: if_splits)
  then obtain m3 m4 where m3: "m3 \<in> set (iter 3 (matches cc_group) (p, s))"
    and m4: "m4 \<in> set (iter 4 (step_class digit_class) m3)"
    and b1: "is_word_before m4 \<noteq> is_word_after m4" and qm: "q = m4"
    by blast
  have "\<exists>m1 m2. m1 \<in> set (matches cc_group (p, s)) \<and> m2 \<in> set (matches cc_group m1)
          \<and> m3 \<in> set (matches cc_group m2)"
    using m3 by (fastforce simp: numeral_3_eq_3)
  then obtain m1 m2 where m1: "m1 \<in> set (matches cc_group (p, s))"
    and m2: "m2 \<in> set (matches cc_group m1)" and m3': "m3 \<in> set (matches cc_group m2)"
    by blast
  from in_cc_group[OF m1] obtain g1 x1 where g1: "length g1 = 4" "list_all is_digit g1"
    "list_all is_separator (optional x1)" "s = g1 @ optional x1 @ snd m1" by auto
  from in_cc_group[OF m2] obtain g2 x2 where g2: "length g2 = 4" "list_all is_digit g2"
    "list_all is_separator (optional x2)" "snd m1 = g2 @ optional x2 @ snd m2" by auto
  from in_cc_group[OF m3'] obtain g3 x3 where g3: "length g3 = 4" "list_all is_digit g3"
    "list_all is_separator (optional x3)" "snd m2 = g3 @ optional x3 @ snd m3" by auto
  from in_iter_step_class[OF m4] obtain g4 where g4: "length g4 = 4"
    "list_all (in_class digit_class) g4" "snd m3 = g4 @ snd m4"
    "fst m4 = (if g4 = [] then fst m3 else Some (last g4))" by blast
  have g4ne: "g4 \<noteq> []" using g4(1) by auto
  have last4: "in_class word_class (last g4)"
    using g4(2) g4ne digit_in_classes(2)[of "last g4"]
    by (simp add: list_all_iff is_digit_def)
  have m4eq: "m4 = (Some (last g4), snd m4)"
    using g4(4) g4ne by (cases m4) simp
  have after: "\<not> is_word_after (Some (last g4), snd m4)"
    using b1 last4 unfolding m4eq[symmetric] by (subst (asm) m4eq) (simp add: is_word_before_def is_word_after_def)
  have g1ne: "g1 \<noteq> []" using g1(1) by auto
  have "in_class word_class (hd g1)"
    using g1(2) g1ne digit_in_classes(2)[of "hd g1"] by (cases g1) simp_all
  then have "is_word_after (p, s)"
    using g1(4) g1ne by (cases g1) (simp_all add: is_word_after_def)
  with b0 have before: "\<not> is_word_before (p, s)" by simp
  have s: "s = g1 @ optional x1 @ g2 @ optional x2 @ g3 @ optional x3 @ g4 @ snd m4"
    using g1(4) g2(4) g3(4) g4(3) by simp
  have len: "n = length (g1 @ optional x1 @ g2 @ optional x2 @ g3 @ optional x3 @ g4)"
    unfolding n qm by (subst s) simp
  show ?thesis
    apply (rule exI[of _ g1], rule exI[of _ x1], rule exI[of _ g2], rule exI[of _ x2])
    apply (rule exI[of _ g3], rule exI[of _ x3], rule exI[of _ g4], rule exI[of _ "snd m4"])
    using s len g1 g2 g3 g4 before after by (simp add: is_digit_def[abs_def])
qed

subsection \<open>One pass of \<^verbatim>\<open>replace\<close>\<close>

lemma last_before_Cons: "last_before p (c # cs) = last_before (Some c) cs"
  by (simp add: last_before_def)

lemma last_before_append:
  "last_before p (xs @ ys) = last_before (last_before p xs) ys"
  by (simp add: last_before_def)

lemma replace_scan_skip:
  "replace_scan r tag (length m) p (m @ post) = replace_scan r tag 0 (last_before p m) post"
proof (induction m arbitrary: p)
  case Nil
  show ?case by (simp add: last_before_def)
next
  case (Cons c cs)
  show ?case using Cons[of "Some c"] by (simp add: last_before_Cons)
qed

lemma replace_scan_copy:
  "unmatched r p pre rest \<Longrightarrow>
   replace_scan r tag 0 p (pre @ rest) = pre @ replace_scan r tag 0 (last_before p pre) rest"
proof (induction pre arbitrary: p)
  case Nil
  show ?case by (simp add: last_before_def)
next
  case (Cons c cs)
  then show ?case by (simp add: last_before_Cons)
qed

lemma replace_scan_hit:
  assumes "match_at r p (m @ post) = Some (length m)" and "m \<noteq> []"
  shows "replace_scan r tag 0 p (m @ post) = tag @ replace_scan r tag 0 (last_before p m) post"
proof -
  from assms(2) obtain c cs where m: "m = c # cs" by (cases m) auto
  have "replace_scan r tag 0 p (c # cs @ post) = tag @ replace_scan r tag (length cs) (Some c) (cs @ post)"
    using assms(1) unfolding m by simp
  then show ?thesis
    unfolding m by (simp add: replace_scan_skip last_before_Cons)
qed

lemma replace_all_free:
  assumes "free_of r s"
  shows "replace_all r tag s = s"
proof -
  have "replace_scan r tag 0 None (s @ []) = s @ replace_scan r tag 0 (last_before None s) []"
    using assms by (intro replace_scan_copy) (simp add: free_of_def)
  then show ?thesis using assms by (simp add: replace_all_def free_of_def)
qed

lemma unmatched_append:
  "unmatched r p (xs @ ys) rest
   \<longleftrightarrow> unmatched r p xs (ys @ rest) \<and> unmatched r (last_before p xs) ys rest"
  by (induction xs arbitrary: p) (simp_all add: last_before_def)

subsection \<open>An address of the pattern's shape is matched whole\<close>

lemma greedy_run_through:
  "list_all (in_class cls) xs \<Longrightarrow>
   \<exists>later. greedy_run cls p (xs @ ys) = greedy_run cls (last_before p xs) ys @ later"
proof (induction xs arbitrary: p)
  case Nil
  show ?case by (simp add: last_before_def)
next
  case (Cons x xs)
  then obtain later where
    "greedy_run cls (Some x) (xs @ ys) = greedy_run cls (last_before (Some x) xs) ys @ later"
    by fastforce
  then show ?case using Cons.prems by (simp add: last_before_Cons)
qed

lemma greedy_run_positions:
  "q \<in> set (greedy_run cls p s) \<Longrightarrow> \<exists>pre. s = pre @ snd q"
proof (induction s arbitrary: p)
  case Nil
  then show ?case by simp
next
  case (Cons c cs)
  then show ?case by (fastforce split: if_splits intro: exI[of _ "[]"])
qed

lemma concat_map_Nil: "(\<And>q. q \<in> set xs \<Longrightarrow> f q = []) \<Longrightarrow> concat (map f xs) = []"
  by (induction xs) simp_all

lemma starts_with_Cat:
  "starts_with x (matches a p) \<Longrightarrow> starts_with y (matches b x) \<Longrightarrow>
   starts_with y (matches (Cat a b) p)"
  by (auto simp: starts_with_def)

lemma letter_is_word: "in_class letter_class c \<Longrightarrow> in_class word_class c"
  by (auto simp: class_defs)

lemma letter_not_dot: "in_class letter_class c \<Longrightarrow> \<not> in_class [chr1 CHR ''.''] c"
  by (auto simp: class_defs)

lemma letter_in_domain: "in_class letter_class c \<Longrightarrow> in_class email_domain_class c"
  by (auto simp: class_defs)

lemma at_classes:
  "in_class [chr1 CHR ''@''] at_sign"
  "\<not> in_class email_local_class at_sign"
  by (simp_all add: class_defs at_sign_def)

lemma dot_classes:
  "in_class [chr1 CHR ''.''] full_stop"
  "in_class email_domain_class full_stop"
  by (simp_all add: class_defs full_stop_def)

lemma matches_AtLeast_1:
  "in_class cls c \<Longrightarrow> matches (AtLeast 1 cls) (p, c # cs) = greedy_run cls (Some c) cs"
  by (simp add: iter_1)

lemma matches_AtLeast_2:
  "in_class cls c1 \<Longrightarrow> in_class cls c2 \<Longrightarrow>
   matches (AtLeast 2 cls) (p, c1 # c2 # cs) = greedy_run cls (Some c2) cs"
  by (simp add: iter_numeral iter_1)

lemma matches_Class_hit:
  "in_class cls c \<Longrightarrow> matches (Cat (Class cls) r) (p, c # cs) = matches r (Some c, cs)"
  by simp

lemma starts_with_append: "starts_with y l \<Longrightarrow> starts_with y (l @ m)"
  by (auto simp: starts_with_def)

text \<open>The tail of the pattern, \<^verbatim>\<open>[A-Za-z]{2,}\b\<close>, on the letters that end the text.\<close>

lemma tld_matches:
  assumes "2 \<le> length tld" and "list_all (in_class letter_class) tld"
  shows "starts_with (Some (last tld), [])
           (matches (Cat (AtLeast 2 letter_class) (Cat WordBoundary Eps)) (p, tld))"
proof -
  from assms(1) obtain t1 t2 ts where tld: "tld = t1 # t2 # ts"
    by (cases tld; cases "tl tld") auto
  have t12: "in_class letter_class t1" "in_class letter_class t2" "list_all (in_class letter_class) ts"
    using assms(2) unfolding tld by simp_all
  from greedy_run_through[OF t12(3), of "Some t2" "[]"]
  obtain later where run: "greedy_run letter_class (Some t2) ts
      = (last_before (Some t2) ts, []) # later"
    by auto
  have lb: "last_before (Some t2) ts = Some (last tld)"
    unfolding tld by (simp add: last_before_def)
  have "in_class letter_class (last tld)"
    using assms(2) unfolding tld list_all_iff by (metis last_in_set list.distinct(1))
  then have w: "in_class word_class (last tld)" by (rule letter_is_word)
  have "matches (AtLeast 2 letter_class) (p, tld) = (Some (last tld), []) # later"
    unfolding tld matches_AtLeast_2[OF t12(1,2)] run lb[unfolded tld] ..
  then have a: "starts_with (Some (last tld), []) (matches (AtLeast 2 letter_class) (p, tld))"
    by (simp add: starts_with_def)
  have b: "starts_with (Some (last tld), [])
             (matches (Cat WordBoundary Eps) (Some (last tld), []))"
    using w by (simp add: starts_with_def is_word_before_def is_word_after_def)
  show ?thesis by (rule starts_with_Cat[OF a b])
qed

text \<open>\<^verbatim>\<open>\.[A-Za-z]{2,}\b\<close> finds nothing at a position inside or after the letters.\<close>

lemma dot_tld_fails_in_letters:
  assumes "list_all (in_class letter_class) tld" and "tld = pre @ snd q"
  shows "matches (Cat (Class [chr1 CHR ''.'']) r) q = []"
proof (cases "snd q")
  case Nil
  then show ?thesis by (cases q) simp
next
  case (Cons c cs)
  then have "c \<in> set tld" using assms(2) by simp
  then have "\<not> in_class [chr1 CHR ''.''] c"
    using assms(1) letter_not_dot by (auto simp: list_all_iff)
  then show ?thesis using Cons by (cases q) simp
qed

lemma domain_matches:
  assumes "domain \<noteq> []" and "list_all (in_class email_domain_class) domain"
    and "2 \<le> length tld" and "list_all (in_class letter_class) tld"
  shows "starts_with (Some (last tld), [])
           (matches (Cat (AtLeast 1 email_domain_class)
              (Cat (Class [chr1 CHR ''.''])
                 (Cat (AtLeast 2 letter_class) (Cat WordBoundary Eps))))
              (p, domain @ full_stop # tld))"
proof -
  let ?tail = "Cat (Class [chr1 CHR ''.'']) (Cat (AtLeast 2 letter_class) (Cat WordBoundary Eps))"
  from assms(1) obtain d ds where dom: "domain = d # ds" by (cases domain) auto
  have dd: "in_class email_domain_class d" "list_all (in_class email_domain_class) ds"
    using assms(2) unfolding dom by simp_all
  from greedy_run_through[OF dd(2), of "Some d" "full_stop # tld"]
  obtain later where run: "greedy_run email_domain_class (Some d) (ds @ full_stop # tld)
      = greedy_run email_domain_class (last_before (Some d) ds) (full_stop # tld) @ later"
    by auto
  let ?x = "(last_before (Some d) ds, full_stop # tld)"
  let ?inside = "greedy_run email_domain_class (Some full_stop) tld"
  have at_dot: "greedy_run email_domain_class (last_before (Some d) ds) (full_stop # tld)
                  = ?inside @ [?x]"
    using dot_classes(2) by simp
  have inside: "concat (map (matches ?tail) ?inside) = []"
  proof (rule concat_map_Nil)
    fix q assume "q \<in> set ?inside"
    then obtain pre where "tld = pre @ snd q" using greedy_run_positions by blast
    then show "matches ?tail q = []" by (rule dot_tld_fails_in_letters[OF assms(4)])
  qed
  have "matches ?tail ?x = matches (Cat (AtLeast 2 letter_class) (Cat WordBoundary Eps))
          (Some full_stop, tld)"
    by (rule matches_Class_hit[OF dot_classes(1)])
  then have hit: "starts_with (Some (last tld), []) (matches ?tail ?x)"
    using tld_matches[OF assms(3,4), of "Some full_stop"] by simp
  have m1: "matches (AtLeast 1 email_domain_class) (p, domain @ full_stop # tld)
          = ?inside @ [?x] @ later"
    unfolding dom using matches_AtLeast_1[OF dd(1), of p "ds @ full_stop # tld"] run at_dot
    by simp
  have "matches (Cat (AtLeast 1 email_domain_class) ?tail) (p, domain @ full_stop # tld)
          = concat (map (matches ?tail) (?inside @ [?x] @ later))"
    unfolding matches.simps(4) m1 ..
  also have "\<dots> = matches ?tail ?x @ concat (map (matches ?tail) later)"
    using inside by simp
  finally show ?thesis using hit by (simp add: starts_with_append)
qed

lemma email_matches_whole:
  assumes "email_shaped local domain tld"
  shows "match_at emailRegex None (local @ at_sign # domain @ full_stop # tld)
         = Some (length (local @ at_sign # domain @ full_stop # tld))"
proof -
  let ?s = "local @ at_sign # domain @ full_stop # tld"
  let ?rest = "Cat (AtLeast 1 email_domain_class)
      (Cat (Class [chr1 CHR ''.'']) (Cat (AtLeast 2 letter_class) (Cat WordBoundary Eps)))"
  from assms have l: "local \<noteq> []" "list_all (in_class email_local_class) local"
    "in_class word_class (hd local)"
    and d: "domain \<noteq> []" "list_all (in_class email_domain_class) domain"
    and t: "2 \<le> length tld" "list_all (in_class letter_class) tld"
    by (simp_all add: email_shaped_def)
  from l(1) obtain c cs where loc: "local = c # cs" by (cases local) auto
  have cc: "in_class email_local_class c" "list_all (in_class email_local_class) cs"
    using l(2) unfolding loc by simp_all
  have e: "emailRegex = Cat WordBoundary (Cat (AtLeast 1 email_local_class)
             (Cat (Class [chr1 CHR ''@'']) ?rest))"
    by (simp add: emailRegex_def seq_def)
  have b: "matches WordBoundary (None, ?s) = [(None, ?s)]"
    using l(3) unfolding loc by (simp add: is_word_before_def is_word_after_def)
  from greedy_run_through[OF cc(2), of "Some c" "at_sign # domain @ full_stop # tld"]
  obtain later where run: "greedy_run email_local_class (Some c) (cs @ at_sign # domain @ full_stop # tld)
      = greedy_run email_local_class (last_before (Some c) cs) (at_sign # domain @ full_stop # tld) @ later"
    by auto
  let ?x = "(last_before (Some c) cs, at_sign # domain @ full_stop # tld)"
  have stop: "greedy_run email_local_class (last_before (Some c) cs) (at_sign # domain @ full_stop # tld) = [?x]"
    using at_classes(2) by simp
  have "matches (AtLeast 1 email_local_class) (None, ?s) = ?x # later"
    unfolding loc using matches_AtLeast_1[OF cc(1), of None "cs @ at_sign # domain @ full_stop # tld"]
      run stop by simp
  then have s1: "starts_with ?x (matches (AtLeast 1 email_local_class) (None, ?s))"
    by (simp add: starts_with_def)
  have "matches (Cat (Class [chr1 CHR ''@'']) ?rest) ?x = matches ?rest (Some at_sign, domain @ full_stop # tld)"
    by (rule matches_Class_hit[OF at_classes(1)])
  then have s2: "starts_with (Some (last tld), []) (matches (Cat (Class [chr1 CHR ''@'']) ?rest) ?x)"
    using domain_matches[OF d t, of "Some at_sign"] by simp
  have s3: "starts_with (Some (last tld), [])
             (matches (Cat (AtLeast 1 email_local_class) (Cat (Class [chr1 CHR ''@'']) ?rest)) (None, ?s))"
    by (rule starts_with_Cat[OF s1 s2])
  have "matches emailRegex (None, ?s)
          = matches (Cat (AtLeast 1 email_local_class) (Cat (Class [chr1 CHR ''@'']) ?rest)) (None, ?s)"
    unfolding e matches.simps(4)[of WordBoundary] b by simp
  with s3 have "starts_with (Some (last tld), []) (matches emailRegex (None, ?s))"
    by simp
  then show ?thesis
    unfolding match_at_def by (auto simp: starts_with_def)
qed

lemma no_empty_match:
  "match_at emailRegex p [] = None" "match_at ssnRegex p [] = None" "match_at ccRegex p [] = None"
  by (simp_all add: sym_defs)

lemma tags_are_stable:
  "replace_all ssnRegex (js ''<REDACTED: SSN>'') (js ''<REDACTED: EMAIL>'') = js ''<REDACTED: EMAIL>''"
  "replace_all ccRegex (js ''<REDACTED: CREDIT_CARD>'') (js ''<REDACTED: EMAIL>'')
     = js ''<REDACTED: EMAIL>''"
  "replace_all ccRegex (js ''<REDACTED: CREDIT_CARD>'') (js ''<REDACTED: SSN>'')
     = js ''<REDACTED: SSN>''"
  by (simp_all add: run_defs class_defs cc_group_def)

lemma sanitizeMessage_three_passes:
  "sanitizeMessage s =
     replace_all ccRegex (js ''<REDACTED: CREDIT_CARD>'')
       (replace_all ssnRegex (js ''<REDACTED: SSN>'')
          (replace_all emailRegex (js ''<REDACTED: EMAIL>'') s))"
  by (cases s) (simp_all add: sanitizeMessage_def Let_def replace_all_def no_empty_match)

lemma email_shaped_redacted:
  assumes "email_shaped local domain tld"
  shows "sanitizeMessage (local @ at_sign # domain @ full_stop # tld) = js ''<REDACTED: EMAIL>''"
proof -
  let ?s = "local @ at_sign # domain @ full_stop # tld"
  have ne: "?s \<noteq> []" by simp
  have "replace_scan emailRegex (js ''<REDACTED: EMAIL>'') 0 None (?s @ [])
          = js ''<REDACTED: EMAIL>''
            @ replace_scan emailRegex (js ''<REDACTED: EMAIL>'') 0 (last_before None ?s) []"
    using email_matches_whole[OF assms] ne by (intro replace_scan_hit) simp_all
  then have "replace_all emailRegex (js ''<REDACTED: EMAIL>'') ?s = js ''<REDACTED: EMAIL>''"
    by (simp add: replace_all_def no_empty_match)
  then show ?thesis
    using ne by (simp add: sanitizeMessage_def Let_def tags_are_stable)
qed

subsection \<open>Lists of a known length, element by element\<close>

lemma explicit_list: "length xs = n \<Longrightarrow> xs = map ((!) xs) [0..<n]"
  by (auto simp: map_nth)

lemma explicit_2: "length xs = 2 \<Longrightarrow> xs = [xs ! 0, xs ! 1]"
  by (drule explicit_list) (simp add: eval_nat_numeral)

lemma explicit_3: "length xs = 3 \<Longrightarrow> xs = [xs ! 0, xs ! 1, xs ! 2]"
  by (drule explicit_list) (simp add: eval_nat_numeral)

lemma explicit_4: "length xs = 4 \<Longrightarrow> xs = [xs ! 0, xs ! 1, xs ! 2, xs ! 3]"
  by (drule explicit_list) (simp add: eval_nat_numeral)

lemma explicit_8:
  "length xs = 8 \<Longrightarrow> xs = [xs ! 0, xs ! 1, xs ! 2, xs ! 3, xs ! 4, xs ! 5, xs ! 6, xs ! 7]"
  by (drule explicit_list) (simp add: eval_nat_numeral)

lemma explicit_12:
  "length xs = 12 \<Longrightarrow> xs = [xs ! 0, xs ! 1, xs ! 2, xs ! 3, xs ! 4, xs ! 5, xs ! 6, xs ! 7,
     xs ! 8, xs ! 9, xs ! 10, xs ! 11]"
  by (drule explicit_list) (simp add: eval_nat_numeral)

lemma explicit_13:
  "length xs = 13 \<Longrightarrow> xs = [xs ! 0, xs ! 1, xs ! 2, xs ! 3, xs ! 4, xs ! 5, xs ! 6, xs ! 7,
     xs ! 8, xs ! 9, xs ! 10, xs ! 11, xs ! 12]"
  by (drule explicit_list) (simp add: eval_nat_numeral)

lemma explicit_14:
  "length xs = 14 \<Longrightarrow> xs = [xs ! 0, xs ! 1, xs ! 2, xs ! 3, xs ! 4, xs ! 5, xs ! 6, xs ! 7,
     xs ! 8, xs ! 9, xs ! 10, xs ! 11, xs ! 12, xs ! 13]"
  by (drule explicit_list) (simp add: eval_nat_numeral)

lemma explicit_15:
  "length xs = 15 \<Longrightarrow> xs = [xs ! 0, xs ! 1, xs ! 2, xs ! 3, xs ! 4, xs ! 5, xs ! 6, xs ! 7,
     xs ! 8, xs ! 9, xs ! 10, xs ! 11, xs ! 12, xs ! 13, xs ! 14]"
  by (drule explicit_list) (simp add: eval_nat_numeral)

lemma short_digit_runs_unchanged:
  assumes "list_all is_digit ds" and "length ds \<in> {8, 12, 13, 14, 15}"
  shows "sanitizeMessage ds = ds"
proof -
  from assms(2) consider "length ds = 8" | "length ds = 12" | "length ds = 13"
    | "length ds = 14" | "length ds = 15" by auto
  then show ?thesis
  proof cases
    case 1
    from explicit_8[OF 1] assms(1) show ?thesis
      by (metis digits_8_unchanged)
  next
    case 2
    from explicit_12[OF 2] assms(1) show ?thesis
      by (metis digits_12_unchanged)
  next
    case 3
    from explicit_13[OF 3] assms(1) show ?thesis
      by (metis digits_13_unchanged)
  next
    case 4
    from explicit_14[OF 4] assms(1) show ?thesis
      by (metis digits_14_unchanged)
  next
    case 5
    from explicit_15[OF 5] assms(1) show ?thesis
      by (metis digits_15_unchanged)
  qed
qed

lemma four_groups_redacted:
  assumes "list_all is_digit (g1 @ g2 @ g3 @ g4)"
    and "length g1 = 4" "length g2 = 4" "length g3 = 4" "length g4 = 4"
    and "list_all is_separator (optional x1 @ optional x2 @ optional x3)"
  shows "sanitizeMessage (g1 @ optional x1 @ g2 @ optional x2 @ g3 @ optional x3 @ g4)
         = js ''<REDACTED: CREDIT_CARD>''"
proof -
  note e = explicit_4[OF assms(2)] explicit_4[OF assms(3)] explicit_4[OF assms(4)]
    explicit_4[OF assms(5)]
  have d: "list_all is_digit [g1 ! 0, g1 ! 1, g1 ! 2, g1 ! 3, g2 ! 0, g2 ! 1, g2 ! 2, g2 ! 3,
      g3 ! 0, g3 ! 1, g3 ! 2, g3 ! 3, g4 ! 0, g4 ! 1, g4 ! 2, g4 ! 3]"
    using assms(1) by (subst (asm) e(1), subst (asm) e(2), subst (asm) e(3), subst (asm) e(4)) simp
  show ?thesis
    using cc_grouped_redacted[OF d assms(6)]
    by (subst e(1), subst e(2), subst e(3), subst e(4)) simp
qed

subsection \<open>Nine digits grouped 3-2-4\<close>

lemma optional_dash_cases:
  "list_all (\<lambda>c. c = dash) (optional x) \<Longrightarrow> optional x = [] \<or> optional x = [dash]"
  by (auto simp: optional_def split: option.splits)

lemma ssn_explicit_redacted:
  assumes "list_all is_digit [d1, d2, d3, d4, d5, d6, d7, d8, d9]"
    and "list_all (\<lambda>c. c = dash) (optional x1 @ optional x2)"
  shows "sanitizeMessage ([d1, d2, d3] @ optional x1 @ [d4, d5] @ optional x2 @ [d6, d7, d8, d9])
         = js ''<REDACTED: SSN>''"
proof -
  from assms(2) have a: "list_all (\<lambda>c. c = dash) (optional x1)"
    "list_all (\<lambda>c. c = dash) (optional x2)" by simp_all
  let ?s = "[d1, d2, d3] @ optional x1 @ [d4, d5] @ optional x2 @ [d6, d7, d8, d9]"
  have e: "replace_all emailRegex (js ''<REDACTED: EMAIL>'') ?s = ?s"
    using optional_dash_cases[OF a(1)] optional_dash_cases[OF a(2)] assms(1)
    by (elim disjE) (simp_all add: sym_defs sym_classes)
  have n: "replace_all ssnRegex (js ''<REDACTED: SSN>'') ?s = js ''<REDACTED: SSN>''"
    using optional_dash_cases[OF a(1)] optional_dash_cases[OF a(2)] assms(1)
    by (elim disjE) (simp_all add: sym_defs sym_classes)
  show ?thesis
    unfolding sanitizeMessage_three_passes e n tags_are_stable ..
qed

lemma ssn_shaped_redacted:
  assumes "list_all is_digit (a @ b @ c)" and "length a = 3" "length b = 2" "length c = 4"
    and "list_all (\<lambda>c. c = dash) (optional x1 @ optional x2)"
  shows "sanitizeMessage (a @ optional x1 @ b @ optional x2 @ c) = js ''<REDACTED: SSN>''"
proof -
  note e = explicit_3[OF assms(2)] explicit_2[OF assms(3)] explicit_4[OF assms(4)]
  have d: "list_all is_digit [a ! 0, a ! 1, a ! 2, b ! 0, b ! 1, c ! 0, c ! 1, c ! 2, c ! 3]"
    using assms(1) by (subst (asm) e(1), subst (asm) e(2), subst (asm) e(3)) simp
  show ?thesis
    using ssn_explicit_redacted[OF d assms(5)]
    by (subst e(1), subst e(2), subst e(3)) simp
qed

subsection \<open>The passes together\<close>

lemma sanitizeMessage_free:
  assumes "free_of emailRegex s" "free_of ssnRegex s" "free_of ccRegex s"
  shows "sanitizeMessage s = s"
  using assms by (simp add: sanitizeMessage_def Let_def replace_all_free)

lemma replace_scan_first_match:
  assumes "unmatched r p pre (m @ post)"
    and "match_at r (last_before p pre) (m @ post) = Some (length m)" and "m \<noteq> []"
  shows "replace_scan r tag 0 p (pre @ m @ post)
         = pre @ tag @ replace_scan r tag 0 (last_before p (pre @ m)) post"
  using replace_scan_copy[OF assms(1), of tag] replace_scan_hit[OF assms(2,3), of tag]
  by (simp add: last_before_append)

subsection \<open>The examples of the source\<close>

lemma example_email:
  "sanitizeMessage (js ''Contact me at test@example.com immediately.'')
   = js ''Contact me at <REDACTED: EMAIL> immediately.''"
  by (simp add: run_defs class_defs cc_group_def)

lemma example_ip:
  "sanitizeMessage (js ''My IP is 127.0.0.1'') = js ''My IP is 127.0.0.1''"
  by (simp add: run_defs class_defs cc_group_def)

lemma example_ssn:
  "sanitizeMessage (js ''My SSN is 123-45-6789 or 123456789.'')
   = js ''My SSN is <REDACTED: SSN> or <REDACTED: SSN>.''"
  by (simp add: run_defs class_defs cc_group_def)

lemma example_card:
  "sanitizeMessage (js ''Charge my card 4242-4242-4242-4242 now.'')
   = js ''Charge my card <REDACTED: CREDIT_CARD> now.''"
  by (simp add: run_defs class_defs cc_group_def)

subsection \<open>The credit-card pattern inside a text\<close>

lemma cc_explicit_in_context:
  assumes "list_all is_digit [d1, d2, d3, d4, d5, d6, d7, d8, d9, d10, d11, d12, d13, d14, d15, d16]"
    and "list_all is_separator (optional x1 @ optional x2 @ optional x3)"
    and "\<not> is_word_before (p, s)" and "\<not> is_word_after (Some d16, rest)"
  shows "match_at ccRegex p ([d1, d2, d3, d4] @ optional x1 @ [d5, d6, d7, d8] @ optional x2
           @ [d9, d10, d11, d12] @ optional x3 @ [d13, d14, d15, d16] @ rest)
         = Some (16 + length (optional x1 @ optional x2 @ optional x3))"
proof -
  from assms(2) have a: "list_all is_separator (optional x1)"
    "list_all is_separator (optional x2)" "list_all is_separator (optional x3)" by simp_all
  from optional_separator_cases[OF a(1)] optional_separator_cases[OF a(2)]
    optional_separator_cases[OF a(3)] assms(1,3,4) show ?thesis
    by (elim disjE exE conjE) (simp_all add: sym_defs sym_classes)
qed

lemma is_word_before_context: "is_word_before (p, s) = is_word_before (p, s')"
  by (simp add: is_word_before_def)

lemma is_word_after_context: "is_word_after (p, s) = is_word_after (p', s)"
  by (simp add: is_word_after_def)

lemma is_word_after_append: "r \<noteq> [] \<Longrightarrow> is_word_after (p, r @ v) = is_word_after (p, r)"
  by (cases r) (simp_all add: is_word_after_def)

lemma cc_in_context:
  assumes "list_all is_digit (g1 @ g2 @ g3 @ g4)"
    and "length g1 = 4" "length g2 = 4" "length g3 = 4" "length g4 = 4"
    and "list_all is_separator (optional x1 @ optional x2 @ optional x3)"
    and "\<not> is_word_before (p, s)" and "\<not> is_word_after (Some (last g4), rest)"
  shows "match_at ccRegex p (g1 @ optional x1 @ g2 @ optional x2 @ g3 @ optional x3 @ g4 @ rest)
         = Some (length (g1 @ optional x1 @ g2 @ optional x2 @ g3 @ optional x3 @ g4))"
proof -
  note e = explicit_4[OF assms(2)] explicit_4[OF assms(3)] explicit_4[OF assms(4)]
    explicit_4[OF assms(5)]
  have d: "list_all is_digit [g1 ! 0, g1 ! 1, g1 ! 2, g1 ! 3, g2 ! 0, g2 ! 1, g2 ! 2, g2 ! 3,
      g3 ! 0, g3 ! 1, g3 ! 2, g3 ! 3, g4 ! 0, g4 ! 1, g4 ! 2, g4 ! 3]"
    using assms(1) by (subst (asm) e(1), subst (asm) e(2), subst (asm) e(3), subst (asm) e(4)) simp
  have l: "last g4 = g4 ! 3" by (subst e(4)) simp
  have a: "\<not> is_word_after (Some (g4 ! 3), rest)" using assms(8) unfolding l .
  show ?thesis
    using cc_explicit_in_context[OF d assms(6,7) a] assms(2-5)
    by (subst e(1), subst e(2), subst e(3), subst e(4)) simp
qed

lemma cc_match_iff:
  "match_at ccRegex p s = Some n \<longleftrightarrow>
     (\<exists>g1 x1 g2 x2 g3 x3 g4 rest.
        s = g1 @ optional x1 @ g2 @ optional x2 @ g3 @ optional x3 @ g4 @ rest
        \<and> n = length (g1 @ optional x1 @ g2 @ optional x2 @ g3 @ optional x3 @ g4)
        \<and> list_all is_digit (g1 @ g2 @ g3 @ g4)
        \<and> length g1 = 4 \<and> length g2 = 4 \<and> length g3 = 4 \<and> length g4 = 4
        \<and> list_all is_separator (optional x1 @ optional x2 @ optional x3)
        \<and> \<not> is_word_before (p, s) \<and> \<not> is_word_after (Some (last g4), rest))"
proof
  assume "match_at ccRegex p s = Some n"
  then show "\<exists>g1 x1 g2 x2 g3 x3 g4 rest.
        s = g1 @ optional x1 @ g2 @ optional x2 @ g3 @ optional x3 @ g4 @ rest
        \<and> n = length (g1 @ optional x1 @ g2 @ optional x2 @ g3 @ optional x3 @ g4)
        \<and> list_all is_digit (g1 @ g2 @ g3 @ g4)
        \<and> length g1 = 4 \<and> length g2 = 4 \<and> length g3 = 4 \<and> length g4 = 4
        \<and> list_all is_separator (optional x1 @ optional x2 @ optional x3)
        \<and> \<not> is_word_before (p, s) \<and> \<not> is_word_after (Some (last g4), rest)"
    by (rule cc_match_shape)
next
  assume "\<exists>g1 x1 g2 x2 g3 x3 g4 rest.
        s = g1 @ optional x1 @ g2 @ optional x2 @ g3 @ optional x3 @ g4 @ rest
        \<and> n = length (g1 @ optional x1 @ g2 @ optional x2 @ g3 @ optional x3 @ g4)
        \<and> list_all is_digit (g1 @ g2 @ g3 @ g4)
        \<and> length g1 = 4 \<and> length g2 = 4 \<and> length g3 = 4 \<and> length g4 = 4
        \<and> list_all is_separator (optional x1 @ optional x2 @ optional x3)
        \<and> \<not> is_word_before (p, s) \<and> \<not> is_word_after (Some (last g4), rest)"
  then obtain g1 x1 g2 x2 g3 x3 g4 rest where
    s: "s = g1 @ optional x1 @ g2 @ optional x2 @ g3 @ optional x3 @ g4 @ rest"
    and n: "n = length (g1 @ optional x1 @ g2 @ optional x2 @ g3 @ optional x3 @ g4)"
    and d: "list_all is_digit (g1 @ g2 @ g3 @ g4)"
    and l: "length g1 = 4" "length g2 = 4" "length g3 = 4" "length g4 = 4"
    and x: "list_all is_separator (optional x1 @ optional x2 @ optional x3)"
    and b: "\<not> is_word_before (p, s)" "\<not> is_word_after (Some (last g4), rest)"
    by blast
  show "match_at ccRegex p s = Some n"
    unfolding n by (subst s) (rule cc_in_context[OF d l x b])
qed

subsection \<open>The runs of digits of a match\<close>

lemma separator_not_digit: "is_separator c \<Longrightarrow> \<not> is_digit c"
  using separator_cases[of c] dash_in_classes(1) space_in_classes(1)[of c]
  by (auto simp: is_digit_def)

lemma word_not_digit: "\<not> in_class word_class c \<Longrightarrow> \<not> is_digit c"
  using digit_in_classes(2)[of c] by auto

lemma digit_runs_from_digits:
  "list_all is_digit g \<Longrightarrow> digit_runs_from k (g @ t) = digit_runs_from (k + length g) t"
  by (induction g arbitrary: k) simp_all

lemma digit_runs_from_separator:
  "list_all is_separator (optional x) \<Longrightarrow>
   digit_runs_from k (optional x @ t)
   = (if x = None then digit_runs_from k t
      else (if k = 0 then [] else [k]) @ digit_runs_from 0 t)"
  by (cases x) (simp_all add: optional_def separator_not_digit)

lemma cc_match_runs:
  assumes "match_at ccRegex p s = Some n"
  shows "(digit_runs (take n s), n) \<in>
           {([16], 16), ([4, 12], 17), ([8, 8], 17), ([12, 4], 17),
            ([4, 4, 8], 18), ([4, 8, 4], 18), ([8, 4, 4], 18), ([4, 4, 4, 4], 19)}"
proof -
  from cc_match_shape[OF assms] obtain g1 x1 g2 x2 g3 x3 g4 rest where
    s: "s = g1 @ optional x1 @ g2 @ optional x2 @ g3 @ optional x3 @ g4 @ rest"
    and n: "n = length (g1 @ optional x1 @ g2 @ optional x2 @ g3 @ optional x3 @ g4)"
    and d: "list_all is_digit (g1 @ g2 @ g3 @ g4)"
    and l: "length g1 = 4" "length g2 = 4" "length g3 = 4" "length g4 = 4"
    and x: "list_all is_separator (optional x1 @ optional x2 @ optional x3)"
    by blast
  have t: "take n s = g1 @ optional x1 @ g2 @ optional x2 @ g3 @ optional x3 @ g4 @ []"
    unfolding n by (subst s) simp
  from d have dg: "list_all is_digit g1" "list_all is_digit g2" "list_all is_digit g3"
    "list_all is_digit g4" by simp_all
  from x have xs: "list_all is_separator (optional x1)" "list_all is_separator (optional x2)"
    "list_all is_separator (optional x3)" by simp_all
  have r: "digit_runs (take n s)
        = (if x1 = None
           then (if x2 = None
                 then (if x3 = None then [16] else [12, 4])
                 else (if x3 = None then [8, 8] else [8, 4, 4]))
           else (if x2 = None
                 then (if x3 = None then [4, 12] else [4, 8, 4])
                 else (if x3 = None then [4, 4, 8] else [4, 4, 4, 4])))"
    unfolding t digit_runs_def
    by (simp only: digit_runs_from_digits[OF dg(1)] digit_runs_from_digits[OF dg(2)]
        digit_runs_from_digits[OF dg(3)] digit_runs_from_digits[OF dg(4)]
        digit_runs_from_separator[OF xs(1)] digit_runs_from_separator[OF xs(2)]
        digit_runs_from_separator[OF xs(3)] l) simp
  have n': "n = 16 + (if x1 = None then 0 else 1) + (if x2 = None then 0 else 1)
             + (if x3 = None then 0 else 1)"
    unfolding n using l by (cases x1; cases x2; cases x3) (simp_all add: optional_def)
  from r n' show ?thesis by (cases x1; cases x2; cases x3) simp_all
qed

lemma cc_match_ends:
  assumes "match_at ccRegex p s = Some n"
  shows "0 < n" and "n \<le> length s" and "is_digit (s ! (n - 1))"
    and "drop n s = [] \<or> \<not> is_digit (hd (drop n s))"
    and "\<not> is_word_before (p, s)"
proof -
  from cc_match_shape[OF assms] obtain g1 x1 g2 x2 g3 x3 g4 rest where
    s: "s = g1 @ optional x1 @ g2 @ optional x2 @ g3 @ optional x3 @ g4 @ rest"
    and n: "n = length (g1 @ optional x1 @ g2 @ optional x2 @ g3 @ optional x3 @ g4)"
    and d: "list_all is_digit (g1 @ g2 @ g3 @ g4)"
    and l: "length g1 = 4" "length g2 = 4" "length g3 = 4" "length g4 = 4"
    and b: "\<not> is_word_before (p, s)" "\<not> is_word_after (Some (last g4), rest)"
    by blast
  let ?m = "g1 @ optional x1 @ g2 @ optional x2 @ g3 @ optional x3 @ g4"
  have sm: "s = ?m @ rest" using s by simp
  have g4: "g4 \<noteq> []" using l(4) by auto
  then have m: "?m \<noteq> []" by simp
  show "0 < n" unfolding n using l(1) by simp
  show "n \<le> length s" unfolding n by (subst sm) simp
  have "s ! (n - 1) = ?m ! (length ?m - 1)"
    unfolding n using m by (subst sm) (simp only: nth_append, simp)
  also have "\<dots> = last ?m" by (rule last_conv_nth[OF m, symmetric])
  also have "\<dots> = last g4" using g4 by simp
  finally have "s ! (n - 1) = last g4" .
  moreover have "is_digit (last g4)" using d g4 by (simp add: list_all_iff)
  ultimately show "is_digit (s ! (n - 1))" by simp
  have "drop n s = rest" unfolding n by (subst sm) simp
  then show "drop n s = [] \<or> \<not> is_digit (hd (drop n s))"
    using b(2) word_not_digit by (cases rest) (auto simp: is_word_after_def)
  show "\<not> is_word_before (p, s)" by (rule b(1))
qed

lemma cc_no_match_after_digit: "is_digit d \<Longrightarrow> match_at ccRegex (Some d) s = None"
proof (rule ccontr)
  assume d: "is_digit d" and "match_at ccRegex (Some d) s \<noteq> None"
  then obtain n where "match_at ccRegex (Some d) s = Some n" by auto
  from cc_match_ends(5)[OF this] digit_in_classes(2)[OF d] show False
    by (simp add: is_word_before_def)
qed

lemma cc_no_match_at_end: "match_at ccRegex p [] = None"
proof (rule ccontr)
  assume "match_at ccRegex p [] \<noteq> None"
  then obtain n where "match_at ccRegex p [] = Some n" by auto
  from cc_match_ends(1,2)[OF this] show False by simp
qed

lemma cc_unmatched_in_run:
  "is_digit d \<Longrightarrow> list_all is_digit ds \<Longrightarrow> unmatched ccRegex (Some d) ds post"
  by (induction ds arbitrary: d) (simp_all add: cc_no_match_after_digit)

subsection \<open>A maximal run of digits and a match that reaches it\<close>

lemma digit_runs_from_run:
  assumes "list_all is_digit ds" and "post = [] \<or> \<not> is_digit (hd post)"
  shows "digit_runs_from k (ds @ post)
         = (if k + length ds = 0 then [] else [k + length ds]) @ digit_runs_from 0 post"
  unfolding digit_runs_from_digits[OF assms(1)] using assms(2) by (cases post) auto

lemma digit_runs_from_before:
  "pre \<noteq> [] \<Longrightarrow> \<not> is_digit (last pre) \<Longrightarrow>
   digit_runs_from k (pre @ t) = digit_runs_from k pre @ digit_runs_from 0 t"
proof (induction pre arbitrary: k)
  case Nil
  then show ?case by simp
next
  case (Cons c cs)
  show ?case
  proof (cases "cs = []")
    case True
    then show ?thesis using Cons.prems by simp
  next
    case False
    then show ?thesis using Cons.IH[OF False] Cons.prems by simp
  qed
qed

lemma run_in_match:
  assumes m: "match_at ccRegex p (pre @ ds @ post) = Some n"
    and ds: "ds \<noteq> []" "list_all is_digit ds"
    and pre: "pre = [] \<or> \<not> is_digit (last pre)"
    and post: "post = [] \<or> \<not> is_digit (hd post)"
    and reach: "length pre < n"
  shows "length (pre @ ds) \<le> n" and "length ds \<in> set (digit_runs (take n (pre @ ds @ post)))"
proof -
  note e = cc_match_ends[OF m]
  show le: "length (pre @ ds) \<le> n"
  proof (rule ccontr)
    assume "\<not> length (pre @ ds) \<le> n"
    then have k: "n - length pre < length ds" using reach by simp
    have "drop n (pre @ ds @ post) = drop (n - length pre) ds @ post"
      using reach k by simp
    moreover have "drop (n - length pre) ds \<noteq> []" using k by simp
    moreover have "hd (drop (n - length pre) ds) = ds ! (n - length pre)"
      using k by (simp add: hd_drop_conv_nth)
    moreover have "is_digit (ds ! (n - length pre))"
      using ds(2) k by (simp add: list_all_length)
    ultimately show False using e(4) by simp
  qed
  let ?post = "take (n - length (pre @ ds)) post"
  have t: "take n (pre @ ds @ post) = pre @ ds @ ?post" using le by simp
  have p': "?post = [] \<or> \<not> is_digit (hd ?post)"
    using post by (cases post; cases "n - length (pre @ ds)") auto
  have r: "digit_runs_from 0 (ds @ ?post) = length ds # digit_runs_from 0 ?post"
    using digit_runs_from_run[OF ds(2) p', of 0] ds(1) by simp
  show "length ds \<in> set (digit_runs (take n (pre @ ds @ post)))"
  proof (cases "pre = []")
    case True
    then show ?thesis unfolding t digit_runs_def using r by simp
  next
    case False
    with pre have "\<not> is_digit (last pre)" by simp
    from digit_runs_from_before[OF False this, of 0 "ds @ ?post"] r
    show ?thesis unfolding t digit_runs_def by simp
  qed
qed

lemma run_of_a_match:
  assumes m: "match_at ccRegex p (pre @ ds @ post) = Some n"
    and ds: "ds \<noteq> []" "list_all is_digit ds"
    and pre: "pre = [] \<or> \<not> is_digit (last pre)"
    and post: "post = [] \<or> \<not> is_digit (hd post)"
    and reach: "length pre < n"
  shows "length ds \<in> {4, 8, 12, 16}" and "length ds = 12 \<Longrightarrow> n = 17"
proof -
  note r = run_in_match(2)[OF m ds pre post reach]
  from cc_match_runs[OF m] r show "length ds \<in> {4, 8, 12, 16}" by auto
  assume "length ds = 12"
  with cc_match_runs[OF m] r show "n = 17" by auto
qed

subsection \<open>The credit-card pass around a run of digits that no match reaches\<close>

lemma cc_match_local:
  assumes "n < length u"
  shows "match_at ccRegex p (u @ v) = Some n \<longleftrightarrow> match_at ccRegex p u = Some n"
proof
  assume m: "match_at ccRegex p (u @ v) = Some n"
  from cc_match_shape[OF m] obtain g1 x1 g2 x2 g3 x3 g4 rest where
    s: "u @ v = g1 @ optional x1 @ g2 @ optional x2 @ g3 @ optional x3 @ g4 @ rest"
    and n: "n = length (g1 @ optional x1 @ g2 @ optional x2 @ g3 @ optional x3 @ g4)"
    and d: "list_all is_digit (g1 @ g2 @ g3 @ g4)"
    and l: "length g1 = 4" "length g2 = 4" "length g3 = 4" "length g4 = 4"
    and x: "list_all is_separator (optional x1 @ optional x2 @ optional x3)"
    and b: "\<not> is_word_before (p, u @ v)" "\<not> is_word_after (Some (last g4), rest)"
    by blast
  let ?m = "g1 @ optional x1 @ g2 @ optional x2 @ g3 @ optional x3 @ g4"
  have sm: "u @ v = ?m @ rest" using s by simp
  have "take n (u @ v) = ?m" unfolding n by (subst sm) simp
  then have tu: "take n u = ?m" using assms by simp
  have "drop n (u @ v) = rest" unfolding n by (subst sm) simp
  then have r: "rest = drop n u @ v" using assms by simp
  have ne: "drop n u \<noteq> []" using assms by simp
  have u: "u = g1 @ optional x1 @ g2 @ optional x2 @ g3 @ optional x3 @ g4 @ drop n u"
    using append_take_drop_id[of n u] unfolding tu by simp
  have b2: "\<not> is_word_after (Some (last g4), drop n u)"
    using b(2) unfolding r is_word_after_append[OF ne] .
  have b1: "\<not> is_word_before (p, u)"
    using b(1) is_word_before_context[of p u "u @ v"] by simp
  show "match_at ccRegex p u = Some n"
    unfolding n by (subst u) (rule cc_in_context[OF d l x b1 b2])
next
  assume m: "match_at ccRegex p u = Some n"
  from cc_match_shape[OF m] obtain g1 x1 g2 x2 g3 x3 g4 rest where
    s: "u = g1 @ optional x1 @ g2 @ optional x2 @ g3 @ optional x3 @ g4 @ rest"
    and n: "n = length (g1 @ optional x1 @ g2 @ optional x2 @ g3 @ optional x3 @ g4)"
    and d: "list_all is_digit (g1 @ g2 @ g3 @ g4)"
    and l: "length g1 = 4" "length g2 = 4" "length g3 = 4" "length g4 = 4"
    and x: "list_all is_separator (optional x1 @ optional x2 @ optional x3)"
    and b: "\<not> is_word_before (p, u)" "\<not> is_word_after (Some (last g4), rest)"
    by blast
  have "length u = n + length rest" unfolding n by (subst s) simp
  then have ne: "rest \<noteq> []" using assms by auto
  have uv: "u @ v = g1 @ optional x1 @ g2 @ optional x2 @ g3 @ optional x3 @ g4 @ rest @ v"
    by (subst s) simp
  have b2: "\<not> is_word_after (Some (last g4), rest @ v)"
    using b(2) unfolding is_word_after_append[OF ne] .
  have b1: "\<not> is_word_before (p, u @ v)"
    using b(1) is_word_before_context[of p u "u @ v"] by simp
  show "match_at ccRegex p (u @ v) = Some n"
    unfolding n by (subst uv) (rule cc_in_context[OF d l x b1 b2])
qed

lemma cc_match_before_run:
  assumes ds: "ds \<noteq> []" "list_all is_digit ds" "length ds \<notin> {4, 8, 12, 16}"
    and pre: "pre \<noteq> []" "\<not> is_digit (last pre)"
    and post: "post = [] \<or> \<not> is_digit (hd post)"
  shows "match_at ccRegex p (pre @ ds @ post) = match_at ccRegex p pre"
proof -
  have inside: "n < length pre" if m: "match_at ccRegex p (pre @ ds @ post) = Some n" for n
  proof -
    have "\<not> length pre < n"
      using run_of_a_match(1)[OF m ds(1,2) _ post] pre(2) ds(3) by blast
    moreover have "n \<noteq> length pre"
    proof
      assume e: "n = length pre"
      have "(pre @ ds @ post) ! (n - 1) = last pre"
        unfolding e using pre(1) by (simp add: nth_append last_conv_nth)
      with cc_match_ends(3)[OF m] pre(2) show False by simp
    qed
    ultimately show ?thesis by simp
  qed
  have alone: "n < length pre" if m: "match_at ccRegex p pre = Some n" for n
  proof -
    have "n \<noteq> length pre"
    proof
      assume e: "n = length pre"
      have "pre ! (n - 1) = last pre" unfolding e using pre(1) by (simp add: last_conv_nth)
      with cc_match_ends(3)[OF m] pre(2) show False by simp
    qed
    with cc_match_ends(2)[OF m] show ?thesis by simp
  qed
  show ?thesis
  proof (cases "match_at ccRegex p (pre @ ds @ post)")
    case None
    show ?thesis
    proof (cases "match_at ccRegex p pre")
      case None
      with \<open>match_at ccRegex p (pre @ ds @ post) = None\<close> show ?thesis by simp
    next
      case (Some n)
      from cc_match_local[OF alone[OF Some], of p "ds @ post"] Some None show ?thesis by simp
    qed
  next
    case (Some n)
    from cc_match_local[OF inside[OF Some], of p "ds @ post"] Some show ?thesis by simp
  qed
qed

lemma cc_scan_before_run:
  assumes ds: "ds \<noteq> []" "list_all is_digit ds" "length ds \<notin> {4, 8, 12, 16}"
    and post: "post = [] \<or> \<not> is_digit (hd post)"
  shows "pre = [] \<or> \<not> is_digit (last pre) \<Longrightarrow> k \<le> length pre \<Longrightarrow>
         replace_scan ccRegex tag k p (pre @ ds @ post)
         = replace_scan ccRegex tag k p pre
           @ replace_scan ccRegex tag 0 (last_before p pre) (ds @ post)"
proof (induction pre arbitrary: k p)
  case Nil
  then show ?case by (simp add: cc_no_match_at_end last_before_def)
next
  case (Cons c cs)
  from Cons.prems(1) have last: "\<not> is_digit (last (c # cs))" by simp
  then have cs: "cs = [] \<or> \<not> is_digit (last cs)" by (cases "cs = []") simp_all
  note same = cc_match_before_run[OF ds _ last post, of p, simplified]
  show ?case
  proof (cases "k > 0")
    case True
    then have "k - 1 \<le> length cs" using Cons.prems(2) by simp
    from Cons.IH[OF cs this, of "Some c"] True show ?thesis
      by (simp add: last_before_Cons)
  next
    case False
    then have k: "k = 0" by simp
    show ?thesis
    proof (cases "match_at ccRegex p (c # cs)")
      case None
      with same have "match_at ccRegex p (c # cs @ ds @ post) = None" by simp
      with None Cons.IH[OF cs, of 0 "Some c"] k show ?thesis
        by (simp add: last_before_Cons)
    next
      case (Some n)
      with same have m: "match_at ccRegex p (c # cs @ ds @ post) = Some n" by simp
      from cc_match_ends(1,2)[OF Some] have n: "0 < n" "n - 1 \<le> length cs" by simp_all
      from Cons.IH[OF cs n(2), of "Some c"] Some m n(1) k show ?thesis
        by (simp add: last_before_Cons)
    qed
  qed
qed

lemma cc_unmatched_run:
  assumes ds: "ds \<noteq> []" "list_all is_digit ds" "length ds \<notin> {4, 8, 12, 16}"
    and post: "post = [] \<or> \<not> is_digit (hd post)"
  shows "unmatched ccRegex p ds post"
proof -
  from ds(1) obtain d ds' where e: "ds = d # ds'" by (cases ds) auto
  have "match_at ccRegex p ([] @ ds @ post) = None"
  proof (rule ccontr)
    assume "match_at ccRegex p ([] @ ds @ post) \<noteq> None"
    then obtain n where m: "match_at ccRegex p ([] @ ds @ post) = Some n" by auto
    from cc_match_ends(1)[OF m] have "length ([] :: jsstring) < n" by simp
    from run_of_a_match(1)[OF m ds(1,2) _ post this] ds(3) show False by simp
  qed
  moreover have "unmatched ccRegex (Some d) ds' post"
    using ds(2) unfolding e by (intro cc_unmatched_in_run) simp_all
  ultimately show ?thesis unfolding e by simp
qed

lemma cc_pass_leaves_run:
  assumes ds: "ds \<noteq> []" "list_all is_digit ds" "length ds \<notin> {4, 8, 12, 16}"
    and pre: "pre = [] \<or> \<not> is_digit (last pre)"
    and post: "post = [] \<or> \<not> is_digit (hd post)"
  shows "replace_scan ccRegex tag 0 p (pre @ ds @ post)
         = replace_scan ccRegex tag 0 p pre @ ds @ replace_scan ccRegex tag 0 (Some (last ds)) post"
proof -
  have "replace_scan ccRegex tag 0 (last_before p pre) (ds @ post)
        = ds @ replace_scan ccRegex tag 0 (last_before (last_before p pre) ds) post"
    by (rule replace_scan_copy[OF cc_unmatched_run[OF ds post]])
  moreover have "last_before (last_before p pre) ds = Some (last ds)"
    using ds(1) by (simp add: last_before_def)
  ultimately show ?thesis
    using cc_scan_before_run[OF ds post pre, of 0 tag p] by simp
qed

lemma sanitizeMessage_card_pass_only:
  assumes "free_of emailRegex t" and "free_of ssnRegex t"
  shows "sanitizeMessage t = replace_all ccRegex (js ''<REDACTED: CREDIT_CARD>'') t"
proof (cases "t = []")
  case True
  then show ?thesis by (simp add: sanitizeMessage_def replace_all_def cc_no_match_at_end)
next
  case False
  then show ?thesis using assms by (simp add: sanitizeMessage_def Let_def replace_all_free)
qed

lemma cc_pass_in_context:
  assumes "unmatched ccRegex p pre (g1 @ optional x1 @ g2 @ optional x2 @ g3 @ optional x3 @ g4 @ post)"
    and "list_all is_digit (g1 @ g2 @ g3 @ g4)"
    and "length g1 = 4" "length g2 = 4" "length g3 = 4" "length g4 = 4"
    and "list_all is_separator (optional x1 @ optional x2 @ optional x3)"
    and "\<not> is_word_before (last_before p pre, s)" and "\<not> is_word_after (Some (last g4), post)"
  shows "replace_scan ccRegex tag 0 p
           (pre @ g1 @ optional x1 @ g2 @ optional x2 @ g3 @ optional x3 @ g4 @ post)
         = pre @ tag @ replace_scan ccRegex tag 0 (Some (last g4)) post"
proof -
  let ?m = "g1 @ optional x1 @ g2 @ optional x2 @ g3 @ optional x3 @ g4"
  have m: "?m \<noteq> []" using assms(3) by auto
  have g4: "g4 \<noteq> []" using assms(6) by auto
  have u: "unmatched ccRegex p pre (?m @ post)" using assms(1) by simp
  have h: "match_at ccRegex (last_before p pre) (?m @ post) = Some (length ?m)"
    using cc_in_context[OF assms(2-9)] by simp
  have "last_before p (pre @ ?m) = Some (last g4)"
    using g4 by (simp add: last_before_def)
  with replace_scan_first_match[OF u h m, of tag] show ?thesis by simp
qed

section \<open>Properties of the redaction\<close>

text \<open>
  C6, as the code has it. The credit-card pattern has one shape and no brand rules.
  \<^enum> A match of the pattern starts at a place of a text if and only if the text there is
    four groups of four digits, each of the first three groups optionally followed by one
    dash or white-space character, not preceded and not followed by a word character.
  \<^enum> The digits of a match stand in maximal runs of 16, of 4 and 12, of 8 and 8, of 12 and
    4, or of more and shorter runs of 4 and 8: a match is 16 to 19 characters long.
  \<^enum> A maximal run of digits that a match reaches lies inside the match and is one of
    these runs: it has 4, 8, 12 or 16 digits, and if it has 12 the match is that run and
    four more digits across one separator.
  \<^enum> So the credit-card pass leaves a maximal run of digits of any other length, 13, 14
    and 15 among them, where it is, whatever stands around it: it works on the text
    before the run and on the text behind it.
  \<^enum> Where the shape stands in a text and no match starts before it, the pass copies what
    is before it, writes the tag in its place, and goes on behind it.
  \<^enum> On a text in which the email pattern and the SSN pattern match nowhere,
    \<^verbatim>\<open>sanitizeMessage\<close> is the credit-card pass.
  \<^enum> Sixteen digits in four groups so separated, standing alone, become
    \<^verbatim>\<open><REDACTED: CREDIT_CARD>\<close>.
  \<^enum> A run of 12, 13, 14 or 15 digits standing alone is returned unchanged.
  \<^enum> Twelve digits, a space and four digits inside a sentence are redacted as a card;
    numbers of 13, 14 and 15 digits inside a sentence stay.
\<close>

theorem credit_card_pattern_is_four_groups_of_four:
  "(match_at ccRegex p s = Some n \<longleftrightarrow>
      (\<exists>h1 y1 h2 y2 h3 y3 h4 rest.
         s = h1 @ optional y1 @ h2 @ optional y2 @ h3 @ optional y3 @ h4 @ rest
         \<and> n = length (h1 @ optional y1 @ h2 @ optional y2 @ h3 @ optional y3 @ h4)
         \<and> list_all is_digit (h1 @ h2 @ h3 @ h4)
         \<and> length h1 = 4 \<and> length h2 = 4 \<and> length h3 = 4 \<and> length h4 = 4
         \<and> list_all is_separator (optional y1 @ optional y2 @ optional y3)
         \<and> \<not> is_word_before (p, s) \<and> \<not> is_word_after (Some (last h4), rest)))
   \<and> (match_at ccRegex p s = Some n
      \<longrightarrow> (digit_runs (take n s), n) \<in>
            {([16], 16), ([4, 12], 17), ([8, 8], 17), ([12, 4], 17),
             ([4, 4, 8], 18), ([4, 8, 4], 18), ([8, 4, 4], 18), ([4, 4, 4, 4], 19)})
   \<and> (match_at ccRegex q (pre @ run @ post) = Some k
        \<and> run \<noteq> [] \<and> list_all is_digit run
        \<and> (pre = [] \<or> \<not> is_digit (last pre)) \<and> (post = [] \<or> \<not> is_digit (hd post))
        \<and> length pre < k
      \<longrightarrow> length (pre @ run) \<le> k \<and> length run \<in> {4, 8, 12, 16}
          \<and> (length run = 12 \<longrightarrow> k = 17))
   \<and> (es \<noteq> [] \<and> list_all is_digit es \<and> length es \<notin> {4, 8, 12, 16}
        \<and> (before = [] \<or> \<not> is_digit (last before))
        \<and> (behind = [] \<or> \<not> is_digit (hd behind))
      \<longrightarrow> replace_scan ccRegex tag 0 b (before @ es @ behind)
            = replace_scan ccRegex tag 0 b before @ es
              @ replace_scan ccRegex tag 0 (Some (last es)) behind)
   \<and> (unmatched ccRegex l left
          (c1 @ optional z1 @ c2 @ optional z2 @ c3 @ optional z3 @ c4 @ right)
        \<and> list_all is_digit (c1 @ c2 @ c3 @ c4)
        \<and> length c1 = 4 \<and> length c2 = 4 \<and> length c3 = 4 \<and> length c4 = 4
        \<and> list_all is_separator (optional z1 @ optional z2 @ optional z3)
        \<and> \<not> is_word_before (last_before l left,
               c1 @ optional z1 @ c2 @ optional z2 @ c3 @ optional z3 @ c4 @ right)
        \<and> \<not> is_word_after (Some (last c4), right)
      \<longrightarrow> replace_scan ccRegex mark 0 l
              (left @ c1 @ optional z1 @ c2 @ optional z2 @ c3 @ optional z3 @ c4 @ right)
            = left @ mark @ replace_scan ccRegex mark 0 (Some (last c4)) right)
   \<and> (free_of emailRegex t \<and> free_of ssnRegex t
      \<longrightarrow> sanitizeMessage t = replace_all ccRegex (js ''<REDACTED: CREDIT_CARD>'') t)
   \<and> (list_all is_digit (g1 @ g2 @ g3 @ g4)
        \<and> length g1 = 4 \<and> length g2 = 4 \<and> length g3 = 4 \<and> length g4 = 4
        \<and> list_all is_separator (optional x1 @ optional x2 @ optional x3)
      \<longrightarrow> sanitizeMessage (g1 @ optional x1 @ g2 @ optional x2 @ g3 @ optional x3 @ g4)
            = js ''<REDACTED: CREDIT_CARD>'')
   \<and> (list_all is_digit ds \<and> length ds \<in> {12, 13, 14, 15} \<longrightarrow> sanitizeMessage ds = ds)
   \<and> sanitizeMessage (js ''order 123456789012 2024 shipped'')
       = js ''order <REDACTED: CREDIT_CARD> shipped''
   \<and> sanitizeMessage (js ''pay 4222222222222 or 30569309025904 or 378282246310005 now'')
       = js ''pay 4222222222222 or 30569309025904 or 378282246310005 now''"
proof (intro conjI impI)
  show "match_at ccRegex p s = Some n \<longleftrightarrow>
      (\<exists>h1 y1 h2 y2 h3 y3 h4 rest.
         s = h1 @ optional y1 @ h2 @ optional y2 @ h3 @ optional y3 @ h4 @ rest
         \<and> n = length (h1 @ optional y1 @ h2 @ optional y2 @ h3 @ optional y3 @ h4)
         \<and> list_all is_digit (h1 @ h2 @ h3 @ h4)
         \<and> length h1 = 4 \<and> length h2 = 4 \<and> length h3 = 4 \<and> length h4 = 4
         \<and> list_all is_separator (optional y1 @ optional y2 @ optional y3)
         \<and> \<not> is_word_before (p, s) \<and> \<not> is_word_after (Some (last h4), rest))"
    by (rule cc_match_iff)
next
  assume "match_at ccRegex p s = Some n"
  then show "(digit_runs (take n s), n) \<in>
            {([16], 16), ([4, 12], 17), ([8, 8], 17), ([12, 4], 17),
             ([4, 4, 8], 18), ([4, 8, 4], 18), ([8, 4, 4], 18), ([4, 4, 4, 4], 19)}"
    by (rule cc_match_runs)
next
  assume a: "match_at ccRegex q (pre @ run @ post) = Some k
        \<and> run \<noteq> [] \<and> list_all is_digit run
        \<and> (pre = [] \<or> \<not> is_digit (last pre)) \<and> (post = [] \<or> \<not> is_digit (hd post))
        \<and> length pre < k"
  then show "length (pre @ run) \<le> k" by (intro run_in_match(1)[of q pre run post k]) simp_all
  from a show "length run \<in> {4, 8, 12, 16}"
    by (intro run_of_a_match(1)[of q pre run post k]) simp_all
  assume "length run = 12"
  with a show "k = 17" by (intro run_of_a_match(2)[of q pre run post k]) simp_all
next
  assume "es \<noteq> [] \<and> list_all is_digit es \<and> length es \<notin> {4, 8, 12, 16}
        \<and> (before = [] \<or> \<not> is_digit (last before))
        \<and> (behind = [] \<or> \<not> is_digit (hd behind))"
  then show "replace_scan ccRegex tag 0 b (before @ es @ behind)
            = replace_scan ccRegex tag 0 b before @ es
              @ replace_scan ccRegex tag 0 (Some (last es)) behind"
    by (intro cc_pass_leaves_run) simp_all
next
  assume a: "unmatched ccRegex l left
          (c1 @ optional z1 @ c2 @ optional z2 @ c3 @ optional z3 @ c4 @ right)
        \<and> list_all is_digit (c1 @ c2 @ c3 @ c4)
        \<and> length c1 = 4 \<and> length c2 = 4 \<and> length c3 = 4 \<and> length c4 = 4
        \<and> list_all is_separator (optional z1 @ optional z2 @ optional z3)
        \<and> \<not> is_word_before (last_before l left,
               c1 @ optional z1 @ c2 @ optional z2 @ c3 @ optional z3 @ c4 @ right)
        \<and> \<not> is_word_after (Some (last c4), right)"
  then show "replace_scan ccRegex mark 0 l
              (left @ c1 @ optional z1 @ c2 @ optional z2 @ c3 @ optional z3 @ c4 @ right)
            = left @ mark @ replace_scan ccRegex mark 0 (Some (last c4)) right"
    by (intro cc_pass_in_context) blast+
next
  assume "free_of emailRegex t \<and> free_of ssnRegex t"
  then show "sanitizeMessage t = replace_all ccRegex (js ''<REDACTED: CREDIT_CARD>'') t"
    by (intro sanitizeMessage_card_pass_only) simp_all
next
  assume "list_all is_digit (g1 @ g2 @ g3 @ g4)
      \<and> length g1 = 4 \<and> length g2 = 4 \<and> length g3 = 4 \<and> length g4 = 4
      \<and> list_all is_separator (optional x1 @ optional x2 @ optional x3)"
  then show "sanitizeMessage (g1 @ optional x1 @ g2 @ optional x2 @ g3 @ optional x3 @ g4)
            = js ''<REDACTED: CREDIT_CARD>''"
    by (intro four_groups_redacted) simp_all
next
  assume "list_all is_digit ds \<and> length ds \<in> {12, 13, 14, 15}"
  then show "sanitizeMessage ds = ds"
    by (intro short_digit_runs_unchanged) auto
next
  show "sanitizeMessage (js ''order 123456789012 2024 shipped'')
       = js ''order <REDACTED: CREDIT_CARD> shipped''"
    by (simp add: run_defs class_defs cc_group_def)
next
  show "sanitizeMessage (js ''pay 4222222222222 or 30569309025904 or 378282246310005 now'')
       = js ''pay 4222222222222 or 30569309025904 or 378282246310005 now''"
    by (simp add: run_defs class_defs cc_group_def)
qed

text \<open>
  The statement above on concrete texts: a card in a sentence, twelve digits followed by
  a space and four digits, and thirteen digits in a sentence.
\<close>

lemma card_text_facts:
  "list_all is_digit (js ''4242'' @ js ''4242'' @ js ''4242'' @ js ''4242'')"
  "length (js ''4242'') = 4"
  "list_all is_separator (optional (Some dash) @ optional (Some dash) @ optional (Some dash))"
  "js ''4242'' @ optional (Some dash) @ js ''4242'' @ optional (Some dash) @ js ''4242''
     @ optional (Some dash) @ js ''4242'' @ js '' now.'' = js ''4242-4242-4242-4242 now.''"
  "js ''Charge my card '' @ js ''4242'' @ optional (Some dash) @ js ''4242''
     @ optional (Some dash) @ js ''4242'' @ optional (Some dash) @ js ''4242'' @ js '' now.''
   = js ''Charge my card 4242-4242-4242-4242 now.''"
  "last (js ''4242'') = of_char CHR ''2''"
  "last_before None (js ''Charge my card '') = Some (of_char CHR '' '')"
  by (simp_all add: js_def is_digit_def is_separator_def optional_def dash_def last_before_def
      class_defs)

lemma card_text_match: "match_at ccRegex None (js ''4242-4242-4242-4242'') = Some 19"
  by (simp add: run_defs class_defs cc_group_def)

lemma card_text_unmatched:
  "unmatched ccRegex None (js ''Charge my card '') (js ''4242-4242-4242-4242 now.'')"
  by (simp add: run_defs class_defs cc_group_def)

lemma card_text_boundaries:
  "\<not> is_word_before (Some (of_char CHR '' ''), js ''4242-4242-4242-4242 now.'')"
  "\<not> is_word_after (Some (of_char CHR ''2''), js '' now.'')"
  by (simp_all add: run_defs class_defs)

lemma card_text_free:
  "free_of emailRegex (js ''Charge my card 4242-4242-4242-4242 now.'')"
  "free_of ssnRegex (js ''Charge my card 4242-4242-4242-4242 now.'')"
  by (simp_all add: free_of_def last_before_def run_defs class_defs)

lemma twelve_text_facts:
  "match_at ccRegex (Some (of_char CHR '' '')) ([] @ js ''123456789012'' @ js '' 2024 shipped'')
   = Some 17"
  "js ''123456789012'' \<noteq> []" "list_all is_digit (js ''123456789012'')"
  "\<not> is_digit (hd (js '' 2024 shipped''))" "length (js ''123456789012'') = 12"
  by (simp_all add: run_defs class_defs cc_group_def is_digit_def)

lemma thirteen_text_facts:
  "js ''4222222222222'' \<noteq> []" "list_all is_digit (js ''4222222222222'')"
  "length (js ''4222222222222'') = 13"
  "\<not> is_digit (last (js ''pay ''))" "\<not> is_digit (hd (js '' now''))"
  "last (js ''4222222222222'') = of_char CHR ''2''"
  by (simp_all add: js_def class_defs is_digit_def)

theorem credit_card_pattern_is_four_groups_of_four_witness:
  "match_at ccRegex None (js ''4242-4242-4242-4242'') = Some 19
   \<and> \<not> is_word_before (None, js ''4242-4242-4242-4242'')
   \<and> (digit_runs (take 19 (js ''4242-4242-4242-4242'')), 19 :: nat) \<in>
         {([16], 16), ([4, 12], 17), ([8, 8], 17), ([12, 4], 17),
          ([4, 4, 8], 18), ([4, 8, 4], 18), ([8, 4, 4], 18), ([4, 4, 4, 4], 19)}
   \<and> match_at ccRegex (Some (of_char CHR '' '')) ([] @ js ''123456789012'' @ js '' 2024 shipped'')
       = Some 17
   \<and> js ''123456789012'' \<noteq> [] \<and> list_all is_digit (js ''123456789012'')
   \<and> \<not> is_digit (hd (js '' 2024 shipped'')) \<and> length ([] :: jsstring) < 17
   \<and> length ([] @ js ''123456789012'') \<le> 17 \<and> length (js ''123456789012'') \<in> {4, 8, 12, 16}
   \<and> js ''4222222222222'' \<noteq> [] \<and> list_all is_digit (js ''4222222222222'')
   \<and> length (js ''4222222222222'') \<notin> {4, 8, 12, 16}
   \<and> \<not> is_digit (last (js ''pay '')) \<and> \<not> is_digit (hd (js '' now''))
   \<and> replace_scan ccRegex (js ''#'') 0 None (js ''pay '' @ js ''4222222222222'' @ js '' now'')
       = replace_scan ccRegex (js ''#'') 0 None (js ''pay '') @ js ''4222222222222''
         @ replace_scan ccRegex (js ''#'') 0 (Some (last (js ''4222222222222''))) (js '' now'')
   \<and> unmatched ccRegex None (js ''Charge my card '')
       (js ''4242'' @ optional (Some dash) @ js ''4242'' @ optional (Some dash) @ js ''4242''
          @ optional (Some dash) @ js ''4242'' @ js '' now.'')
   \<and> list_all is_digit (js ''4242'' @ js ''4242'' @ js ''4242'' @ js ''4242'')
   \<and> length (js ''4242'') = 4
   \<and> list_all is_separator (optional (Some dash) @ optional (Some dash) @ optional (Some dash))
   \<and> \<not> is_word_before (last_before None (js ''Charge my card ''),
          js ''4242'' @ optional (Some dash) @ js ''4242'' @ optional (Some dash) @ js ''4242''
            @ optional (Some dash) @ js ''4242'' @ js '' now.'')
   \<and> \<not> is_word_after (Some (last (js ''4242'')), js '' now.'')
   \<and> replace_scan ccRegex (js ''#'') 0 None
         (js ''Charge my card '' @ js ''4242'' @ optional (Some dash) @ js ''4242''
            @ optional (Some dash) @ js ''4242'' @ optional (Some dash) @ js ''4242'' @ js '' now.'')
       = js ''Charge my card '' @ js ''#''
         @ replace_scan ccRegex (js ''#'') 0 (Some (last (js ''4242''))) (js '' now.'')
   \<and> free_of emailRegex (js ''Charge my card 4242-4242-4242-4242 now.'')
   \<and> free_of ssnRegex (js ''Charge my card 4242-4242-4242-4242 now.'')
   \<and> sanitizeMessage (js ''Charge my card 4242-4242-4242-4242 now.'')
       = replace_all ccRegex (js ''<REDACTED: CREDIT_CARD>'')
           (js ''Charge my card 4242-4242-4242-4242 now.'')
   \<and> sanitizeMessage (js ''4242'' @ optional (Some dash) @ js ''4242'' @ optional (Some dash)
         @ js ''4242'' @ optional (Some dash) @ js ''4242'') = js ''<REDACTED: CREDIT_CARD>''
   \<and> length (js ''4222222222222'') \<in> {12, 13, 14, 15}
   \<and> sanitizeMessage (js ''4222222222222'') = js ''4222222222222''"
proof -
  note t = credit_card_pattern_is_four_groups_of_four[where p = None
      and s = "js ''4242-4242-4242-4242''" and n = 19
      and q = "Some (of_char CHR '' '')" and pre = "[]" and run = "js ''123456789012''"
      and post = "js '' 2024 shipped''" and k = 17
      and es = "js ''4222222222222''" and before = "js ''pay ''" and behind = "js '' now''"
      and tag = "js ''#''" and b = None
      and l = None and left = "js ''Charge my card ''" and right = "js '' now.''"
      and ?c1.0 = "js ''4242''" and ?c2.0 = "js ''4242''" and ?c3.0 = "js ''4242''"
      and ?c4.0 = "js ''4242''" and ?z1.0 = "Some dash" and ?z2.0 = "Some dash"
      and ?z3.0 = "Some dash" and mark = "js ''#''"
      and t = "js ''Charge my card 4242-4242-4242-4242 now.''"
      and ?g1.0 = "js ''4242''" and ?g2.0 = "js ''4242''" and ?g3.0 = "js ''4242''"
      and ?g4.0 = "js ''4242''" and ?x1.0 = "Some dash" and ?x2.0 = "Some dash"
      and ?x3.0 = "Some dash" and ds = "js ''4222222222222''"]
  note t1 = t[THEN conjunct1]
  note t2 = t[THEN conjunct2, THEN conjunct1]
  note t3 = t[THEN conjunct2, THEN conjunct2, THEN conjunct1]
  note t4 = t[THEN conjunct2, THEN conjunct2, THEN conjunct2, THEN conjunct1]
  note t5 = t[THEN conjunct2, THEN conjunct2, THEN conjunct2, THEN conjunct2, THEN conjunct1]
  note t6 = t[THEN conjunct2, THEN conjunct2, THEN conjunct2, THEN conjunct2, THEN conjunct2,
      THEN conjunct1]
  note t7 = t[THEN conjunct2, THEN conjunct2, THEN conjunct2, THEN conjunct2, THEN conjunct2,
      THEN conjunct2, THEN conjunct1]
  note t8 = t[THEN conjunct2, THEN conjunct2, THEN conjunct2, THEN conjunct2, THEN conjunct2,
      THEN conjunct2, THEN conjunct2, THEN conjunct1]
  note m = card_text_match
  have w1: "\<not> is_word_before (None, js ''4242-4242-4242-4242'')"
    using t1 m by blast
  have w2: "(digit_runs (take 19 (js ''4242-4242-4242-4242'')), 19 :: nat) \<in>
         {([16], 16), ([4, 12], 17), ([8, 8], 17), ([12, 4], 17),
          ([4, 4, 8], 18), ([4, 8, 4], 18), ([8, 4, 4], 18), ([4, 4, 4, 4], 19)}"
    using t2 m by blast
  note h3 = twelve_text_facts(1,2,3,4)
  have l3: "length ([] :: jsstring) < 17" by simp
  have w3: "length ([] @ js ''123456789012'') \<le> 17"
    "length (js ''123456789012'') \<in> {4, 8, 12, 16}"
    using t3 h3 l3 by blast+
  note h4 = thirteen_text_facts(1,2,4,5)
  have l4: "length (js ''4222222222222'') \<notin> {4, 8, 12, 16}"
    by (simp add: thirteen_text_facts(3))
  have w4: "replace_scan ccRegex (js ''#'') 0 None (js ''pay '' @ js ''4222222222222'' @ js '' now'')
       = replace_scan ccRegex (js ''#'') 0 None (js ''pay '') @ js ''4222222222222''
         @ replace_scan ccRegex (js ''#'') 0 (Some (last (js ''4222222222222''))) (js '' now'')"
    using t4 h4 l4 by blast
  have u5: "unmatched ccRegex None (js ''Charge my card '')
       (js ''4242'' @ optional (Some dash) @ js ''4242'' @ optional (Some dash) @ js ''4242''
          @ optional (Some dash) @ js ''4242'' @ js '' now.'')"
    unfolding card_text_facts(4) by (rule card_text_unmatched)
  have b5: "\<not> is_word_before (last_before None (js ''Charge my card ''),
          js ''4242'' @ optional (Some dash) @ js ''4242'' @ optional (Some dash) @ js ''4242''
            @ optional (Some dash) @ js ''4242'' @ js '' now.'')"
    "\<not> is_word_after (Some (last (js ''4242'')), js '' now.'')"
    unfolding card_text_facts(4,6,7) by (rule card_text_boundaries)+
  note h5 = u5 card_text_facts(1,2,3) b5
  have w5: "replace_scan ccRegex (js ''#'') 0 None
         (js ''Charge my card '' @ js ''4242'' @ optional (Some dash) @ js ''4242''
            @ optional (Some dash) @ js ''4242'' @ optional (Some dash) @ js ''4242'' @ js '' now.'')
       = js ''Charge my card '' @ js ''#''
         @ replace_scan ccRegex (js ''#'') 0 (Some (last (js ''4242''))) (js '' now.'')"
    using t5 h5 by blast
  have w6: "sanitizeMessage (js ''Charge my card 4242-4242-4242-4242 now.'')
       = replace_all ccRegex (js ''<REDACTED: CREDIT_CARD>'')
           (js ''Charge my card 4242-4242-4242-4242 now.'')"
    using t6 card_text_free by blast
  have w7: "sanitizeMessage (js ''4242'' @ optional (Some dash) @ js ''4242'' @ optional (Some dash)
         @ js ''4242'' @ optional (Some dash) @ js ''4242'') = js ''<REDACTED: CREDIT_CARD>''"
    using t7 card_text_facts(1,2,3) by blast
  have l8: "length (js ''4222222222222'') \<in> {12, 13, 14, 15}"
    by (simp add: thirteen_text_facts(3))
  have w8: "sanitizeMessage (js ''4222222222222'') = js ''4222222222222''"
    using t8 thirteen_text_facts(2) l8 by blast
  show ?thesis
    by (intro conjI)
      (rule m w1 w2 h3 l3 w3 h4 l4 w4 h5 w5 card_text_free w6 w7 l8 w8)+
qed

text \<open>
  C6 as stated fails: the 13-digit, the 14-digit and the 15-digit number below each
  satisfy a brand rule (Visa, Diners Club, American Express; the rules are quoted in a
  comment of the source), and each is returned unchanged.
\<close>

theorem brand_valid_short_runs_counterexample:
  "sanitizeMessage (js ''4222222222222'') = js ''4222222222222''
   \<and> sanitizeMessage (js ''30569309025904'') = js ''30569309025904''
   \<and> sanitizeMessage (js ''378282246310005'') = js ''378282246310005''"
  by (simp add: run_defs class_defs cc_group_def)

text \<open>
  C9, as the code has it. \<^verbatim>\<open>sanitizeMessage\<close> is three passes, email, then SSN, then
  credit card, each over the text the pass before left (1). A pass copies the text before
  the first match of its pattern, writes the tag in place of the match and goes on behind
  it (2); a text in which none of the three patterns matches anywhere is returned as it is
  (3). Every address of the email pattern's shape, standing alone, becomes
  \<^verbatim>\<open><REDACTED: EMAIL>\<close> (4); nine digits grouped 3-2-4, each dash optional, become
  \<^verbatim>\<open><REDACTED: SSN>\<close> (5); eight digits are returned unchanged (6); and the four
  examples of the source come out as they are written there (7).
\<close>

theorem sanitizeMessage_three_passes_and_examples:
  "sanitizeMessage s =
     replace_all ccRegex (js ''<REDACTED: CREDIT_CARD>'')
       (replace_all ssnRegex (js ''<REDACTED: SSN>'')
          (replace_all emailRegex (js ''<REDACTED: EMAIL>'') s))
   \<and> (unmatched r p pre (m @ post)
        \<and> match_at r (last_before p pre) (m @ post) = Some (length m) \<and> m \<noteq> []
      \<longrightarrow> replace_scan r tag 0 p (pre @ m @ post)
            = pre @ tag @ replace_scan r tag 0 (last_before p (pre @ m)) post)
   \<and> (free_of emailRegex t \<and> free_of ssnRegex t \<and> free_of ccRegex t \<longrightarrow> sanitizeMessage t = t)
   \<and> (email_shaped local domain tld
      \<longrightarrow> sanitizeMessage (local @ at_sign # domain @ full_stop # tld) = js ''<REDACTED: EMAIL>'')
   \<and> (list_all is_digit (a @ b @ c) \<and> length a = 3 \<and> length b = 2 \<and> length c = 4
        \<and> list_all (\<lambda>c. c = dash) (optional x1 @ optional x2)
      \<longrightarrow> sanitizeMessage (a @ optional x1 @ b @ optional x2 @ c) = js ''<REDACTED: SSN>'')
   \<and> (list_all is_digit ds \<and> length ds = 8 \<longrightarrow> sanitizeMessage ds = ds)
   \<and> sanitizeMessage (js ''Contact me at test@example.com immediately.'')
       = js ''Contact me at <REDACTED: EMAIL> immediately.''
   \<and> sanitizeMessage (js ''My IP is 127.0.0.1'') = js ''My IP is 127.0.0.1''
   \<and> sanitizeMessage (js ''My SSN is 123-45-6789 or 123456789.'')
       = js ''My SSN is <REDACTED: SSN> or <REDACTED: SSN>.''
   \<and> sanitizeMessage (js ''Charge my card 4242-4242-4242-4242 now.'')
       = js ''Charge my card <REDACTED: CREDIT_CARD> now.''"
proof (intro conjI impI)
  show "sanitizeMessage s =
     replace_all ccRegex (js ''<REDACTED: CREDIT_CARD>'')
       (replace_all ssnRegex (js ''<REDACTED: SSN>'')
          (replace_all emailRegex (js ''<REDACTED: EMAIL>'') s))"
    by (rule sanitizeMessage_three_passes)
next
  assume "unmatched r p pre (m @ post)
        \<and> match_at r (last_before p pre) (m @ post) = Some (length m) \<and> m \<noteq> []"
  then show "replace_scan r tag 0 p (pre @ m @ post)
            = pre @ tag @ replace_scan r tag 0 (last_before p (pre @ m)) post"
    by (intro replace_scan_first_match) simp_all
next
  assume "free_of emailRegex t \<and> free_of ssnRegex t \<and> free_of ccRegex t"
  then show "sanitizeMessage t = t" by (intro sanitizeMessage_free) simp_all
next
  assume "email_shaped local domain tld"
  then show "sanitizeMessage (local @ at_sign # domain @ full_stop # tld) = js ''<REDACTED: EMAIL>''"
    by (rule email_shaped_redacted)
next
  assume "list_all is_digit (a @ b @ c) \<and> length a = 3 \<and> length b = 2 \<and> length c = 4
        \<and> list_all (\<lambda>c. c = dash) (optional x1 @ optional x2)"
  then show "sanitizeMessage (a @ optional x1 @ b @ optional x2 @ c) = js ''<REDACTED: SSN>''"
    by (intro ssn_shaped_redacted) simp_all
next
  assume "list_all is_digit ds \<and> length ds = 8"
  then show "sanitizeMessage ds = ds" by (intro short_digit_runs_unchanged) simp_all
qed (rule example_email example_ip example_ssn example_card)+

theorem sanitizeMessage_three_passes_and_examples_witness:
  "unmatched ssnRegex None (js ''My SSN is '') (js ''123-45-6789'' @ js '' or 123456789.'')
   \<and> match_at ssnRegex (last_before None (js ''My SSN is ''))
         (js ''123-45-6789'' @ js '' or 123456789.'') = Some (length (js ''123-45-6789''))
   \<and> js ''123-45-6789'' \<noteq> []
   \<and> replace_scan ssnRegex (js ''<REDACTED: SSN>'') 0 None
         (js ''My SSN is '' @ js ''123-45-6789'' @ js '' or 123456789.'')
       = js ''My SSN is '' @ js ''<REDACTED: SSN>''
           @ replace_scan ssnRegex (js ''<REDACTED: SSN>'') 0
               (last_before None (js ''My SSN is '' @ js ''123-45-6789'')) (js '' or 123456789.'')
   \<and> free_of emailRegex (js ''My IP is 127.0.0.1'') \<and> free_of ssnRegex (js ''My IP is 127.0.0.1'')
   \<and> free_of ccRegex (js ''My IP is 127.0.0.1'')
   \<and> sanitizeMessage (js ''My IP is 127.0.0.1'') = js ''My IP is 127.0.0.1''
   \<and> email_shaped (js ''test'') (js ''example'') (js ''com'')
   \<and> sanitizeMessage (js ''test'' @ at_sign # js ''example'' @ full_stop # js ''com'')
       = js ''<REDACTED: EMAIL>''
   \<and> list_all is_digit (js ''123'' @ js ''45'' @ js ''6789'')
   \<and> length (js ''123'') = 3 \<and> length (js ''45'') = 2 \<and> length (js ''6789'') = 4
   \<and> list_all (\<lambda>c. c = dash) (optional (Some dash) @ optional (Some dash))
   \<and> sanitizeMessage (js ''123'' @ optional (Some dash) @ js ''45'' @ optional (Some dash)
         @ js ''6789'') = js ''<REDACTED: SSN>''
   \<and> list_all is_digit (js ''12345678'') \<and> length (js ''12345678'') = 8
   \<and> sanitizeMessage (js ''12345678'') = js ''12345678''"
proof -
  note t = sanitizeMessage_three_passes_and_examples[where r = ssnRegex and p = None
      and pre = "js ''My SSN is ''" and m = "js ''123-45-6789''"
      and post = "js '' or 123456789.''" and tag = "js ''<REDACTED: SSN>''"
      and t = "js ''My IP is 127.0.0.1''"
      and local = "js ''test''" and domain = "js ''example''" and tld = "js ''com''"
      and a = "js ''123''" and b = "js ''45''" and c = "js ''6789''"
      and ?x1.0 = "Some dash" and ?x2.0 = "Some dash" and ds = "js ''12345678''"]
  have p1: "unmatched ssnRegex None (js ''My SSN is '') (js ''123-45-6789'' @ js '' or 123456789.'')"
    by (simp add: run_defs class_defs)
  have p2: "match_at ssnRegex (last_before None (js ''My SSN is ''))
         (js ''123-45-6789'' @ js '' or 123456789.'') = Some (length (js ''123-45-6789''))"
    by (simp add: run_defs class_defs last_before_def)
  have p3: "js ''123-45-6789'' \<noteq> []" by (simp add: js_def)
  have f1: "free_of emailRegex (js ''My IP is 127.0.0.1'')"
    by (simp add: free_of_def last_before_def run_defs class_defs)
  have f2: "free_of ssnRegex (js ''My IP is 127.0.0.1'')"
    by (simp add: free_of_def last_before_def run_defs class_defs)
  have f3: "free_of ccRegex (js ''My IP is 127.0.0.1'')"
    by (simp add: free_of_def last_before_def run_defs class_defs cc_group_def)
  have e: "email_shaped (js ''test'') (js ''example'') (js ''com'')"
    by (simp add: email_shaped_def js_def class_defs)
  have d9: "list_all is_digit (js ''123'' @ js ''45'' @ js ''6789'')"
    by (simp add: js_def is_digit_def class_defs)
  have l9: "length (js ''123'') = 3" "length (js ''45'') = 2" "length (js ''6789'') = 4"
    by (simp_all add: js_def)
  have o: "list_all (\<lambda>c. c = dash) (optional (Some dash) @ optional (Some dash))"
    by (simp add: optional_def)
  have d8: "list_all is_digit (js ''12345678'')" by (simp add: js_def is_digit_def class_defs)
  have l8: "length (js ''12345678'') = 8" by (simp add: js_def)
  have c1: "replace_scan ssnRegex (js ''<REDACTED: SSN>'') 0 None
         (js ''My SSN is '' @ js ''123-45-6789'' @ js '' or 123456789.'')
       = js ''My SSN is '' @ js ''<REDACTED: SSN>''
           @ replace_scan ssnRegex (js ''<REDACTED: SSN>'') 0
               (last_before None (js ''My SSN is '' @ js ''123-45-6789'')) (js '' or 123456789.'')"
    using t p1 p2 p3 by blast
  have c2: "sanitizeMessage (js ''My IP is 127.0.0.1'') = js ''My IP is 127.0.0.1''"
    using t f1 f2 f3 by blast
  have c3: "sanitizeMessage (js ''test'' @ at_sign # js ''example'' @ full_stop # js ''com'')
       = js ''<REDACTED: EMAIL>''"
    using t e by blast
  have c4: "sanitizeMessage (js ''123'' @ optional (Some dash) @ js ''45'' @ optional (Some dash)
         @ js ''6789'') = js ''<REDACTED: SSN>''"
    using t d9 l9 o by blast
  have c5: "sanitizeMessage (js ''12345678'') = js ''12345678''"
    using t d8 l8 by blast
  show ?thesis
    using p1 p2 p3 c1 f1 f2 f3 c2 e c3 d9 l9 o c4 d8 l8 c5 by blast
qed

text \<open>
  C9 as stated fails. In \<^verbatim>\<open>123-45-1234 5678 9012 3456\<close> the credit-card pattern
  matches the nineteen characters from offset 7 on, but the SSN pass runs first and takes
  the card's first group, so twelve digits of the card stay in the output. And in
  \<^verbatim>\<open>o'brien@example.com\<close> the pattern matches from \<^verbatim>\<open>brien\<close> on only, so the
  address does not become the tag.
\<close>

theorem pii_left_in_output_counterexample:
  "match_at ccRegex (Some dash) (js ''1234 5678 9012 3456'') = Some 19
   \<and> sanitizeMessage (js ''123-45-1234 5678 9012 3456'') = js ''<REDACTED: SSN> 5678 9012 3456''
   \<and> sanitizeMessage (js ''o'' @ 0x27 # js ''brien@example.com'')
       = js ''o'' @ 0x27 # js ''<REDACTED: EMAIL>''"
  by (simp add: run_defs class_defs cc_group_def dash_def)

section \<open>Key configuration at start-up\<close>

lemma length_not_hex_key: "length not_hex_key = 64"
  by (simp add: not_hex_key_def js_def)

lemma not_hex_key_not_empty: "not_hex_key \<noteq> []"
  by (simp add: not_hex_key_def js_def)

lemma hex_decode_not_hex_key: "hex_decode not_hex_key = []"
  by (simp add: not_hex_key_def js_def unhex_def Let_def)

text \<open>
  C8. The key check looks at the length of the configured string only. A string of 64
  characters that are not hexadecimal digits passes it: \<^verbatim>\<open>getEncryptionKey\<close> returns a
  key of no bytes at all without an error, the server goes on to listen, and every later
  \<^verbatim>\<open>encrypt\<close> fails on the key length.
\<close>

theorem key_check_passes_string_of_64_non_hex_characters:
  "length not_hex_key = 64
   \<and> getEncryptionKey (Some not_hex_key) = Inr []
   \<and> server_start (Some not_hex_key) = Listening
   \<and> encrypt rt (Some not_hex_key) nonce text = Inl InvalidKeyLength"
  by (simp add: getEncryptionKey_def server_start_def encrypt_def
      length_not_hex_key hex_decode_not_hex_key not_hex_key_not_empty)

section \<open>The audit log on a damaged store\<close>

text \<open>
  C7, as the code has it. When the stored text is read but does not parse,
  \<^verbatim>\<open>appendAuditRecord\<close> takes the collection to be empty and writes the new record
  alone, and it reports nothing: \<^verbatim>\<open>console.error\<close> is not called. When the file
  cannot be read, or holds a value that is not an array, or cannot be written, nothing is
  persisted and one line goes to \<^verbatim>\<open>console.error\<close>. On a sound store the record is
  added at the end. In each case the call completes.
\<close>

theorem appendAuditRecord_by_state_of_store:
  "appendAuditRecord r \<lparr>log_file = Unparseable, writable = True, console_error = out\<rparr>
     = \<lparr>log_file = Records [r], writable = True, console_error = out\<rparr>
   \<and> appendAuditRecord r \<lparr>log_file = Records rs, writable = True, console_error = out\<rparr>
     = \<lparr>log_file = Records (rs @ [r]), writable = True, console_error = out\<rparr>
   \<and> appendAuditRecord r \<lparr>log_file = Unreadable, writable = w, console_error = out\<rparr>
     = \<lparr>log_file = Unreadable, writable = w,
        console_error = out @ [js ''Failed to write audit log:'']\<rparr>
   \<and> appendAuditRecord r \<lparr>log_file = NotAnArray, writable = w, console_error = out\<rparr>
     = \<lparr>log_file = NotAnArray, writable = w,
        console_error = out @ [js ''Failed to write audit log:'']\<rparr>
   \<and> appendAuditRecord r \<lparr>log_file = f, writable = False, console_error = out\<rparr>
     = \<lparr>log_file = f, writable = False,
        console_error = out @ [js ''Failed to write audit log:'']\<rparr>"
  by (cases f) (simp_all add: appendAuditRecord_def read_modify_write_def)

text \<open>
  C7 as stated fails twice. On a store whose text does not parse the record is written
  but nothing is reported; on a store that cannot be read the fault is logged but the
  record is not written.
\<close>

theorem damaged_store_counterexample:
  "console_error (appendAuditRecord sample_record
       \<lparr>log_file = Unparseable, writable = True, console_error = []\<rparr>) = []
   \<and> log_file (appendAuditRecord sample_record
       \<lparr>log_file = Unparseable, writable = True, console_error = []\<rparr>) = Records [sample_record]
   \<and> log_file (appendAuditRecord sample_record
       \<lparr>log_file = Unreadable, writable = True, console_error = []\<rparr>) = Unreadable"
  by (simp add: appendAuditRecord_def read_modify_write_def)

section \<open>Properties of the cipher\<close>

lemma getEncryptionKey_valid:
  assumes "length keyHex = 64" and "is_hex_string keyHex"
  shows "getEncryptionKey (Some keyHex) = Inr (hex_decode keyHex)"
    and "length (hex_decode keyHex) = 32"
proof -
  have "keyHex \<noteq> []" using assms(1) by auto
  then show "getEncryptionKey (Some keyHex) = Inr (hex_decode keyHex)"
    using assms(1) by (simp add: getEncryptionKey_def)
  show "length (hex_decode keyHex) = 32"
    using length_hex_decode[OF assms(2)] assms(1) by simp
qed

text \<open>
  Whatever the text: decrypting what \<^verbatim>\<open>encrypt\<close> returned gives the text as UTF-8
  encoding and decoding leave it.
\<close>

lemma decrypt_encrypt:
  assumes "runtime_round_trips rt" and "length keyHex = 64" and "is_hex_string keyHex"
    and "length nonce = 12"
  shows "\<exists>envelope. encrypt rt (Some keyHex) nonce text = Inr envelope
           \<and> decrypt rt (Some keyHex) envelope = Inr (utf8_decode (utf8_encode text))"
proof -
  let ?key = "hex_decode keyHex"
  let ?sealed = "gcm_seal rt ?key nonce (utf8_encode text)"
  let ?b = "\<lparr>iv = hex_encode nonce, ciphertext = hex_encode (fst ?sealed),
             authTag = hex_encode (snd ?sealed)\<rparr>"
  note k = getEncryptionKey_valid[OF assms(2,3)]
  have enc: "encrypt rt (Some keyHex) nonce text = Inr (blob_to_base64 rt ?b)"
    by (simp add: encrypt_def k Let_def)
  have parse: "base64_to_blob rt (blob_to_base64 rt ?b) = Some ?b"
    using assms(1) by (simp add: runtime_round_trips_def is_hex_string_hex_encode)
  have opened: "gcm_open rt ?key nonce (snd ?sealed) (fst ?sealed) = Some (utf8_encode text)"
    using assms(1,4) k(2) by (simp add: runtime_round_trips_def)
  have "decrypt rt (Some keyHex) (blob_to_base64 rt ?b) = Inr (utf8_decode (utf8_encode text))"
    by (simp add: decrypt_def k parse hex_round_trip opened length_hex_encode)
  with enc show ?thesis by blast
qed

lemma bar_not_hex: "is_hex_string s \<Longrightarrow> bar \<notin> set s"
  by (auto simp: is_hex_string_def list_all_iff bar_def unhex_def Let_def)

lemma toy_of_to_base64:
  assumes "is_hex_string (iv b)" and "is_hex_string (ciphertext b)"
  shows "toy_of_base64 (toy_to_base64 b) = Some b"
proof -
  have a: "\<And>x. x \<in> set (iv b) \<Longrightarrow> x \<noteq> bar" using bar_not_hex[OF assms(1)] by auto
  have c: "\<And>x. x \<in> set (ciphertext b) \<Longrightarrow> x \<noteq> bar" using bar_not_hex[OF assms(2)] by auto
  have t1: "takeWhile (\<lambda>c. c \<noteq> bar) (iv b @ bar # ciphertext b @ bar # authTag b) = iv b"
    using a by (simp add: takeWhile_append2)
  have d1: "dropWhile (\<lambda>c. c \<noteq> bar) (iv b @ bar # ciphertext b @ bar # authTag b)
              = bar # ciphertext b @ bar # authTag b"
    using a by (simp add: dropWhile_append2)
  have t2: "takeWhile (\<lambda>c. c \<noteq> bar) (ciphertext b @ bar # authTag b) = ciphertext b"
    using c by (simp add: takeWhile_append2)
  have d2: "dropWhile (\<lambda>c. c \<noteq> bar) (ciphertext b @ bar # authTag b) = bar # authTag b"
    using c by (simp add: dropWhile_append2)
  show ?thesis
    by (simp add: toy_of_base64_def toy_to_base64_def t1 d1 t2 d2 Let_def)
qed

lemma toy_runtime_round_trips: "runtime_round_trips toy_runtime"
  by (simp add: runtime_round_trips_def toy_runtime_def toy_seal_def toy_open_def toy_tag_def
      gcm_tag_lengths_def toy_of_to_base64 comp_def)

lemma toy_open_cut:
  assumes "n \<in> gcm_tag_lengths" and "toy_open key nonce tag cipher = Some plain"
  shows "toy_open key nonce (take n tag) cipher = Some plain"
proof -
  let ?T = "toy_tag key nonce cipher"
  from assms(2) have l: "length tag \<in> gcm_tag_lengths" and t: "tag = take (length tag) ?T"
    and p: "plain = map (\<lambda>b. b - hd key) cipher"
    by (auto simp: toy_open_def split: if_splits)
  show ?thesis
  proof (cases "n \<le> length tag")
    case True
    then have len: "length (take n tag) = n" by simp
    have "take n tag = take n (take (length tag) ?T)" using t by simp
    also have "\<dots> = take n ?T" using True by (simp add: min_def)
    finally have "take n tag = take (length (take n tag)) ?T" using len by simp
    then show ?thesis using assms(1) len p by (simp add: toy_open_def)
  next
    case False
    then have "take n tag = tag" by simp
    then show ?thesis using assms(2) by simp
  qed
qed

lemma toy_runtime_tag_handling: "node_tag_handling toy_runtime"
  unfolding node_tag_handling_def
proof (intro conjI allI impI)
  fix key nonce :: "byte list" and plain :: "byte list"
  assume "length key = 32"
  then show "length (snd (gcm_seal toy_runtime key nonce plain)) = 16"
    by (simp add: toy_runtime_def toy_seal_def toy_tag_def)
next
  fix key nonce tag cipher plain :: "byte list" and n :: nat
  assume "n \<in> gcm_tag_lengths \<and> gcm_open toy_runtime key nonce tag cipher = Some plain"
  then show "gcm_open toy_runtime key nonce (take n tag) cipher = Some plain"
    using toy_open_cut[of n key nonce tag cipher plain] by (simp add: toy_runtime_def)
qed

lemma sample_key_hex_valid: "length sample_key_hex = 64" "is_hex_string sample_key_hex"
  by (simp_all add: sample_key_hex_def js_def is_hex_string_def unhex_def Let_def)

lemma sample_nonce_length: "length sample_nonce = 12"
  by (simp add: sample_nonce_def)

text \<open>
  C5, as the code has it. With a valid key (64 hexadecimal digits) and a runtime whose
  cipher and serialisation round-trip, for every string without an unpaired surrogate
  \<^verbatim>\<open>encrypt\<close> returns an envelope and \<^verbatim>\<open>decrypt\<close> of that envelope returns the
  string.
\<close>

theorem decrypt_encrypt_well_formed:
  assumes "runtime_round_trips rt" and "length keyHex = 64" and "is_hex_string keyHex"
    and "length nonce = 12" and "well_formed text"
  shows "\<exists>envelope. encrypt rt (Some keyHex) nonce text = Inr envelope
           \<and> decrypt rt (Some keyHex) envelope = Inr text"
  using decrypt_encrypt[OF assms(1-4), of "text"] utf8_round_trip[OF assms(5)] by simp

theorem decrypt_encrypt_well_formed_witness:
  "runtime_round_trips toy_runtime \<and> length sample_key_hex = 64 \<and> is_hex_string sample_key_hex
   \<and> length sample_nonce = 12 \<and> well_formed (js ''caf'' @ [0xE9, 0x20, 0xD83D, 0xDE00])
   \<and> (\<exists>envelope.
         encrypt toy_runtime (Some sample_key_hex) sample_nonce
           (js ''caf'' @ [0xE9, 0x20, 0xD83D, 0xDE00]) = Inr envelope
         \<and> decrypt toy_runtime (Some sample_key_hex) envelope
             = Inr (js ''caf'' @ [0xE9, 0x20, 0xD83D, 0xDE00]))"
proof -
  have wf: "well_formed (js ''caf'' @ [0xE9, 0x20, 0xD83D, 0xDE00])"
    by (simp add: js_def is_high_surrogate_def is_low_surrogate_def)
  show ?thesis
    using decrypt_encrypt_well_formed[OF toy_runtime_round_trips sample_key_hex_valid
        sample_nonce_length wf]
      toy_runtime_round_trips sample_key_hex_valid sample_nonce_length wf
    by blast
qed

text \<open>
  C5 as stated fails: the string of the single code unit U+D800, a high surrogate with
  no low surrogate after it, is encrypted as the three bytes of U+FFFD and comes back as
  U+FFFD.
\<close>

lemma utf8_lone_surrogate: "utf8_decode (utf8_encode [0xD800]) = [0xFFFD]"
  by (simp add: utf8_encode_def lone_code_point_def is_high_surrogate_def utf8_bytes_def
      byte_of_def unit_of_def byte_in_def low6_def utf16_units_def)

theorem lone_surrogate_round_trip_counterexample:
  "\<not> isl (encrypt toy_runtime (Some sample_key_hex) sample_nonce [0xD800])
   \<and> decrypt toy_runtime (Some sample_key_hex)
        (projr (encrypt toy_runtime (Some sample_key_hex) sample_nonce [0xD800]))
      = Inr [0xFFFD]
   \<and> [0xFFFD] \<noteq> [0xD800 :: jschar]"
proof -
  obtain envelope where
    e: "encrypt toy_runtime (Some sample_key_hex) sample_nonce [0xD800] = Inr envelope"
    and d: "decrypt toy_runtime (Some sample_key_hex) envelope
              = Inr (utf8_decode (utf8_encode [0xD800]))"
    using decrypt_encrypt[OF toy_runtime_round_trips sample_key_hex_valid sample_nonce_length]
    by blast
  show ?thesis using d by (simp add: e utf8_lone_surrogate)
qed

section \<open>A tampered envelope\<close>

lemma take_hex_encode: "take (2 * n) (hex_encode bs) = hex_encode (take n bs)"
proof (induction bs arbitrary: n)
  case Nil
  show ?case by (simp add: hex_encode_def)
next
  case (Cons b bs)
  show ?case
  proof (cases n)
    case 0
    then show ?thesis by (simp add: hex_encode_def)
  next
    case (Suc m)
    have "hex_encode (b # bs) = hex_digit (unat b div 16) # hex_digit (unat b mod 16) # hex_encode bs"
      by (simp add: hex_encode_def)
    then show ?thesis using Cons[of m] Suc by (simp add: hex_encode_def)
  qed
qed

lemma encrypt_sealed_blob:
  assumes "length keyHex = 64" and "is_hex_string keyHex"
  shows "encrypt rt (Some keyHex) nonce text
         = Inr (blob_to_base64 rt (sealed_blob rt keyHex nonce text))"
  by (simp add: encrypt_def sealed_blob_def Let_def getEncryptionKey_valid[OF assms])

lemma decrypt_unreadable:
  assumes "length keyHex = 64" and "is_hex_string keyHex" and "base64_to_blob rt e = None"
  shows "decrypt rt (Some keyHex) e = Inl EnvelopeUnreadable"
  by (simp add: decrypt_def getEncryptionKey_valid[OF assms(1,2)] assms(3))

lemma decrypt_returns_what_was_opened:
  assumes "decrypt rt (Some keyHex) e = Inr t"
  shows "\<exists>b plain. base64_to_blob rt e = Some b
           \<and> gcm_open rt (hex_decode keyHex) (hex_decode (iv b)) (hex_decode (authTag b))
                 (hex_decode (ciphertext b)) = Some plain
           \<and> t = utf8_decode plain"
  using assms
  by (auto simp: decrypt_def getEncryptionKey_def split: if_splits option.splits sum.splits)

lemma decrypt_cut_tag:
  assumes rt: "runtime_round_trips rt" "node_tag_handling rt"
    and key: "length keyHex = 64" "is_hex_string keyHex"
    and nonce: "length nonce = 12" and n: "n \<in> {4, 8, 12, 13, 14, 15}"
  shows "blob_to_base64 rt (cut_tag n (sealed_blob rt keyHex nonce text))
           \<noteq> blob_to_base64 rt (sealed_blob rt keyHex nonce text)"
    and "decrypt rt (Some keyHex) (blob_to_base64 rt (cut_tag n (sealed_blob rt keyHex nonce text)))
         = Inr (utf8_decode (utf8_encode text))"
proof -
  let ?key = "hex_decode keyHex"
  let ?sealed = "gcm_seal rt ?key nonce (utf8_encode text)"
  let ?b = "sealed_blob rt keyHex nonce text"
  let ?c = "cut_tag n ?b"
  note k = getEncryptionKey_valid[OF key]
  have b: "iv ?b = hex_encode nonce" "ciphertext ?b = hex_encode (fst ?sealed)"
    "authTag ?b = hex_encode (snd ?sealed)"
    by (simp_all add: sealed_blob_def Let_def)
  have c: "iv ?c = hex_encode nonce" "ciphertext ?c = hex_encode (fst ?sealed)"
    "authTag ?c = hex_encode (take n (snd ?sealed))"
    by (simp_all add: cut_tag_def b take_hex_encode)
  have tag16: "length (snd ?sealed) = 16"
    using rt(2) k(2) by (simp add: node_tag_handling_def)
  have n16: "n < 16" using n by auto
  have "length (authTag ?c) = 2 * n" "length (authTag ?b) = 32"
    using tag16 n16 by (simp_all add: b c length_hex_encode)
  then have differ: "?c \<noteq> ?b" using n16 by auto
  have parse_b: "base64_to_blob rt (blob_to_base64 rt ?b) = Some ?b"
    using rt(1) by (simp add: runtime_round_trips_def b is_hex_string_hex_encode)
  have parse_c: "base64_to_blob rt (blob_to_base64 rt ?c) = Some ?c"
    using rt(1) by (simp add: runtime_round_trips_def c is_hex_string_hex_encode)
  show "blob_to_base64 rt ?c \<noteq> blob_to_base64 rt ?b"
    using parse_b parse_c differ by auto
  have opened: "gcm_open rt ?key nonce (snd ?sealed) (fst ?sealed) = Some (utf8_encode text)"
    using rt(1) nonce k(2) by (simp add: runtime_round_trips_def)
  have "n \<in> gcm_tag_lengths" using n by (auto simp: gcm_tag_lengths_def)
  with opened rt(2)
  have cut: "gcm_open rt ?key nonce (take n (snd ?sealed)) (fst ?sealed) = Some (utf8_encode text)"
    unfolding node_tag_handling_def by blast
  show "decrypt rt (Some keyHex) (blob_to_base64 rt ?c) = Inr (utf8_decode (utf8_encode text))"
    by (simp add: decrypt_def k parse_c c hex_round_trip cut length_hex_encode)
qed

text \<open>
  C4. With a key that passes the check: \<^verbatim>\<open>decrypt\<close> of a text that is not an
  envelope fails (1), and \<^verbatim>\<open>decrypt\<close> returns a text only where the runtime accepted
  the tag for the key, and then the text the runtime opened (2). But \<^verbatim>\<open>decrypt\<close>
  never looks at the length of the tag: with a runtime that handles tags as Node does,
  the envelope that \<^verbatim>\<open>encrypt\<close> returned with its authentication tag cut to its first
  4, 8, 12, 13, 14 or 15 bytes is another envelope, and \<^verbatim>\<open>decrypt\<close> returns the
  plaintext for it instead of failing (3).
\<close>

theorem decrypt_accepts_a_cut_tag:
  "(length keyHex = 64 \<and> is_hex_string keyHex \<and> base64_to_blob rt e1 = None
      \<longrightarrow> decrypt rt (Some keyHex) e1 = Inl EnvelopeUnreadable)
   \<and> (decrypt rt (Some keyHex) e2 = Inr t
      \<longrightarrow> (\<exists>b plain. base64_to_blob rt e2 = Some b
             \<and> gcm_open rt (hex_decode keyHex) (hex_decode (iv b)) (hex_decode (authTag b))
                   (hex_decode (ciphertext b)) = Some plain
             \<and> t = utf8_decode plain))
   \<and> (runtime_round_trips rt \<and> node_tag_handling rt
        \<and> length keyHex = 64 \<and> is_hex_string keyHex \<and> length nonce = 12
        \<and> well_formed text \<and> n \<in> {4, 8, 12, 13, 14, 15}
      \<longrightarrow> encrypt rt (Some keyHex) nonce text
            = Inr (blob_to_base64 rt (sealed_blob rt keyHex nonce text))
          \<and> blob_to_base64 rt (cut_tag n (sealed_blob rt keyHex nonce text))
              \<noteq> blob_to_base64 rt (sealed_blob rt keyHex nonce text)
          \<and> decrypt rt (Some keyHex)
                (blob_to_base64 rt (cut_tag n (sealed_blob rt keyHex nonce text)))
              = Inr text)"
proof (intro conjI impI)
  assume "length keyHex = 64 \<and> is_hex_string keyHex \<and> base64_to_blob rt e1 = None"
  then show "decrypt rt (Some keyHex) e1 = Inl EnvelopeUnreadable"
    by (intro decrypt_unreadable) simp_all
next
  assume "decrypt rt (Some keyHex) e2 = Inr t"
  then show "\<exists>b plain. base64_to_blob rt e2 = Some b
             \<and> gcm_open rt (hex_decode keyHex) (hex_decode (iv b)) (hex_decode (authTag b))
                   (hex_decode (ciphertext b)) = Some plain
             \<and> t = utf8_decode plain"
    by (rule decrypt_returns_what_was_opened)
next
  assume a: "runtime_round_trips rt \<and> node_tag_handling rt
        \<and> length keyHex = 64 \<and> is_hex_string keyHex \<and> length nonce = 12
        \<and> well_formed text \<and> n \<in> {4, 8, 12, 13, 14, 15}"
  then show "encrypt rt (Some keyHex) nonce text
            = Inr (blob_to_base64 rt (sealed_blob rt keyHex nonce text))"
    by (intro encrypt_sealed_blob) simp_all
  from a show "blob_to_base64 rt (cut_tag n (sealed_blob rt keyHex nonce text))
              \<noteq> blob_to_base64 rt (sealed_blob rt keyHex nonce text)"
    by (intro decrypt_cut_tag(1)) simp_all
  from a have "decrypt rt (Some keyHex)
                (blob_to_base64 rt (cut_tag n (sealed_blob rt keyHex nonce text)))
              = Inr (utf8_decode (utf8_encode text))"
    by (intro decrypt_cut_tag(2)) simp_all
  with a show "decrypt rt (Some keyHex)
                (blob_to_base64 rt (cut_tag n (sealed_blob rt keyHex nonce text)))
              = Inr text"
    by (simp add: utf8_round_trip)
qed

text \<open>
  The envelope of the text \<^verbatim>\<open>secret\<close> under the sample key, and that envelope with its
  tag cut to four bytes.
\<close>

lemma sample_key_bytes:
  "hex_decode sample_key_hex
   = [0x60, 0x3d, 0xeb, 0x10, 0x15, 0xca, 0x71, 0xbe, 0x2b, 0x73, 0xae, 0xf0, 0x85, 0x7d, 0x77, 0x81,
      0x1f, 0x35, 0x2c, 0x07, 0x3b, 0x61, 0x08, 0xd7, 0x2d, 0x98, 0x10, 0xa3, 0x09, 0x14, 0xdf, 0xf4]"
  by (simp add: sample_key_hex_def js_def unhex_def Let_def byte_of_def)

lemma secret_bytes: "utf8_encode (js ''secret'') = [0x73, 0x65, 0x63, 0x72, 0x65, 0x74]"
  by (simp add: js_def utf8_encode_def lone_code_point_def is_high_surrogate_def
      is_low_surrogate_def utf8_bytes_def byte_of_def)

lemma sample_sealed:
  "toy_seal (hex_decode sample_key_hex) sample_nonce (utf8_encode (js ''secret''))
   = ([0xd3, 0xc5, 0xc3, 0xd2, 0xc5, 0xd4],
      [0x74, 0x51, 0xff, 0x24, 0x29, 0xde, 0x85, 0xd2, 0x3f, 0x87, 0xc2, 0x04, 0x99, 0x91, 0x8b, 0x95])"
  by (simp add: sample_key_bytes secret_bytes toy_seal_def toy_tag_def sample_nonce_def)

lemma sample_hex:
  "hex_encode sample_nonce = js ''0102030405060708090a0b0c''"
  "hex_encode [0xd3, 0xc5, 0xc3, 0xd2, 0xc5, 0xd4] = js ''d3c5c3d2c5d4''"
  "hex_encode [0x74, 0x51, 0xff, 0x24, 0x29, 0xde, 0x85, 0xd2, 0x3f, 0x87, 0xc2, 0x04, 0x99, 0x91, 0x8b, 0x95]
   = js ''7451ff2429de85d23f87c20499918b95''"
  by (simp_all add: hex_encode_def hex_digit_def unit_of_def js_def sample_nonce_def)

lemma sample_sealed_blob:
  "sealed_blob toy_runtime sample_key_hex sample_nonce (js ''secret'')
   = \<lparr>iv = js ''0102030405060708090a0b0c'', ciphertext = js ''d3c5c3d2c5d4'',
       authTag = js ''7451ff2429de85d23f87c20499918b95''\<rparr>"
proof -
  have "gcm_seal toy_runtime = toy_seal" by (simp add: toy_runtime_def)
  then show ?thesis
    unfolding sealed_blob_def Let_def by (simp only: sample_sealed fst_conv snd_conv sample_hex)
qed

lemma sample_envelopes:
  "blob_to_base64 toy_runtime (sealed_blob toy_runtime sample_key_hex sample_nonce (js ''secret''))
   = js ''0102030405060708090a0b0c|d3c5c3d2c5d4|7451ff2429de85d23f87c20499918b95''"
  "blob_to_base64 toy_runtime
     (cut_tag 4 (sealed_blob toy_runtime sample_key_hex sample_nonce (js ''secret'')))
   = js ''0102030405060708090a0b0c|d3c5c3d2c5d4|7451ff24''"
  unfolding sample_sealed_blob
  by (simp_all add: toy_runtime_def toy_to_base64_def cut_tag_def bar_def js_def)

lemma not_an_envelope: "base64_to_blob toy_runtime (js ''not an envelope'') = None"
  by (simp add: toy_runtime_def toy_of_base64_def bar_def js_def Let_def)

lemma well_formed_secret: "well_formed (js ''secret'')"
  by (simp add: js_def is_high_surrogate_def is_low_surrogate_def)

theorem decrypt_accepts_a_cut_tag_witness:
  "length sample_key_hex = 64 \<and> is_hex_string sample_key_hex
   \<and> base64_to_blob toy_runtime (js ''not an envelope'') = None
   \<and> decrypt toy_runtime (Some sample_key_hex) (js ''not an envelope'') = Inl EnvelopeUnreadable
   \<and> runtime_round_trips toy_runtime \<and> node_tag_handling toy_runtime
   \<and> length sample_nonce = 12 \<and> well_formed (js ''secret'') \<and> (4 :: nat) \<in> {4, 8, 12, 13, 14, 15}
   \<and> encrypt toy_runtime (Some sample_key_hex) sample_nonce (js ''secret'')
       = Inr (js ''0102030405060708090a0b0c|d3c5c3d2c5d4|7451ff2429de85d23f87c20499918b95'')
   \<and> js ''0102030405060708090a0b0c|d3c5c3d2c5d4|7451ff24''
       \<noteq> js ''0102030405060708090a0b0c|d3c5c3d2c5d4|7451ff2429de85d23f87c20499918b95''
   \<and> decrypt toy_runtime (Some sample_key_hex)
         (js ''0102030405060708090a0b0c|d3c5c3d2c5d4|7451ff24'') = Inr (js ''secret'')
   \<and> (\<exists>b plain.
         base64_to_blob toy_runtime (js ''0102030405060708090a0b0c|d3c5c3d2c5d4|7451ff24'') = Some b
         \<and> gcm_open toy_runtime (hex_decode sample_key_hex) (hex_decode (iv b))
               (hex_decode (authTag b)) (hex_decode (ciphertext b)) = Some plain
         \<and> js ''secret'' = utf8_decode plain)"
proof -
  note t = decrypt_accepts_a_cut_tag[where keyHex = sample_key_hex and rt = toy_runtime
      and ?e1.0 = "js ''not an envelope''"
      and ?e2.0 = "js ''0102030405060708090a0b0c|d3c5c3d2c5d4|7451ff24''"
      and t = "js ''secret''" and nonce = sample_nonce and ?text = "js ''secret''" and n = 4,
      unfolded sample_envelopes]
  have n: "(4 :: nat) \<in> {4, 8, 12, 13, 14, 15}" by simp
  note h = sample_key_hex_valid not_an_envelope toy_runtime_round_trips toy_runtime_tag_handling
    sample_nonce_length well_formed_secret n
  have c1: "decrypt toy_runtime (Some sample_key_hex) (js ''not an envelope'') = Inl EnvelopeUnreadable"
    using t h by blast
  have c3: "encrypt toy_runtime (Some sample_key_hex) sample_nonce (js ''secret'')
       = Inr (js ''0102030405060708090a0b0c|d3c5c3d2c5d4|7451ff2429de85d23f87c20499918b95'')"
    "js ''0102030405060708090a0b0c|d3c5c3d2c5d4|7451ff24''
       \<noteq> js ''0102030405060708090a0b0c|d3c5c3d2c5d4|7451ff2429de85d23f87c20499918b95''"
    "decrypt toy_runtime (Some sample_key_hex)
         (js ''0102030405060708090a0b0c|d3c5c3d2c5d4|7451ff24'') = Inr (js ''secret'')"
    using t h by blast+
  have c2: "\<exists>b plain.
         base64_to_blob toy_runtime (js ''0102030405060708090a0b0c|d3c5c3d2c5d4|7451ff24'') = Some b
         \<and> gcm_open toy_runtime (hex_decode sample_key_hex) (hex_decode (iv b))
               (hex_decode (authTag b)) (hex_decode (ciphertext b)) = Some plain
         \<and> js ''secret'' = utf8_decode plain"
    using t c3(3) by blast
  show ?thesis using h c1 c2 c3 by blast
qed

section \<open>Properties of the route\<close>

lemma appendAuditRecord_sound_store:
  assumes "log_file st \<noteq> Unreadable" and "log_file st \<noteq> NotAnArray" and "writable st"
  shows "log_file (appendAuditRecord r st) = Records (stored_records st @ [r])"
  using assms
  by (cases "log_file st")
     (simp_all add: appendAuditRecord_def read_modify_write_def stored_records_def)

lemma not_rejected_string:
  "\<not> rejected (JString s) \<longleftrightarrow> s \<noteq> [] \<and> trim s \<noteq> []"
  by (simp add: rejected_def truthy_def)

text \<open>
  What the handler leaves in the store, given that \<^verbatim>\<open>encrypt\<close> returned \<open>envelope\<close>:
  the record it appends carries the user, the redacted text and the envelope, in every
  breaker state and for either value of the failure header.
\<close>

lemma secure_inquiry_store:
  assumes "body_userId req = JString uid" and "\<not> rejected (JString uid)"
    and "body_message req = JString message" and "\<not> rejected (JString message)"
    and "encrypt rt (env_key ps) (random_bytes amb) message = Inr envelope"
  shows "\<exists>r. store (snd (secure_inquiry rt amb req ps)) = appendAuditRecord r (store ps)
           \<and> userId r = uid \<and> redactedMessage r = sanitizeMessage message
           \<and> originalMessageEncrypted r = envelope"
proof (cases "canExecute (clock_canExecute amb) (breaker ps)")
  case (Pair ok b1)
  show ?thesis
  proof (cases ok)
    case False
    then show ?thesis
      using assms Pair
      by (simp add: secure_inquiry_def Let_def) (intro exI conjI, rule refl, simp_all)
  next
    case True
    show ?thesis
    proof (cases "x_mock_ai_fail req = Some (js ''true'')")
      case forced: True
      then show ?thesis
        using assms Pair True
        by (simp add: secure_inquiry_def Let_def mockAiCall_def)
           (intro exI conjI, rule refl, simp_all)
    next
      case answered: False
      then show ?thesis
        using assms Pair True
        by (simp add: secure_inquiry_def Let_def mockAiCall_def)
           (intro exI conjI, rule refl, simp_all)
    qed
  qed
qed

text \<open>
  C1, as the code has it. Take a request whose \<^verbatim>\<open>userId\<close> and \<^verbatim>\<open>message\<close> are
  strings that the validation accepts (not empty, and not empty after \<^verbatim>\<open>trim()\<close>),
  the message without an unpaired surrogate; a valid process key; an audit file that can
  be read and written. Then, whatever the breaker's state and whether the downstream call
  answers, is forced to fail or is skipped, the handler appends exactly one record to the
  records read from the file; its \<^verbatim>\<open>redactedMessage\<close> is \<^verbatim>\<open>sanitizeMessage(message)\<close>
  and its \<^verbatim>\<open>originalMessageEncrypted\<close> decrypts under the process key to the message.
\<close>

theorem secure_inquiry_appends_one_audit_record:
  assumes "runtime_round_trips rt"
    and "env_key ps = Some keyHex" and "length keyHex = 64" and "is_hex_string keyHex"
    and "length (random_bytes amb) = 12"
    and "body_userId req = JString uid" and "\<not> rejected (JString uid)"
    and "body_message req = JString message" and "\<not> rejected (JString message)"
    and "well_formed message"
    and "log_file (store ps) \<noteq> Unreadable" and "log_file (store ps) \<noteq> NotAnArray"
    and "writable (store ps)"
  shows "\<exists>r. log_file (store (snd (secure_inquiry rt amb req ps)))
                = Records (stored_records (store ps) @ [r])
           \<and> userId r = uid
           \<and> redactedMessage r = sanitizeMessage message
           \<and> decrypt rt (env_key ps) (originalMessageEncrypted r) = Inr message"
proof -
  from decrypt_encrypt[OF assms(1,3,4,5), of message] utf8_round_trip[OF assms(10)]
  obtain envelope where e: "encrypt rt (env_key ps) (random_bytes amb) message = Inr envelope"
    and d: "decrypt rt (env_key ps) envelope = Inr message"
    unfolding assms(2) by auto
  from secure_inquiry_store[OF assms(6,7,8,9) e]
  obtain r where r: "store (snd (secure_inquiry rt amb req ps)) = appendAuditRecord r (store ps)"
    "userId r = uid" "redactedMessage r = sanitizeMessage message"
    "originalMessageEncrypted r = envelope" by blast
  have "log_file (store (snd (secure_inquiry rt amb req ps)))
          = Records (stored_records (store ps) @ [r])"
    unfolding r(1) by (rule appendAuditRecord_sound_store[OF assms(11,12,13)])
  with r d show ?thesis by auto
qed

lemma sample_process_fields:
  "env_key (sample_process b) = Some sample_key_hex"
  "log_file (store (sample_process b)) = Records []"
  "writable (store (sample_process b))"
  "breaker (sample_process b) = b"
  by (simp_all add: sample_process_def)

lemma sample_request_fields:
  "body_userId (sample_request m) = JString (js ''u1'')"
  "body_message (sample_request m) = JString m"
  by (simp_all add: sample_request_def)

lemma sample_user_accepted: "\<not> rejected (JString (js ''u1''))"
  by (simp add: not_rejected_string trim_def js_def class_defs)

theorem secure_inquiry_appends_one_audit_record_witness:
  "runtime_round_trips toy_runtime
   \<and> state (breaker (sample_process tripped_at_0)) = OPEN
   \<and> env_key (sample_process tripped_at_0) = Some sample_key_hex
   \<and> length sample_key_hex = 64 \<and> is_hex_string sample_key_hex
   \<and> length (random_bytes sample_ambient) = 12
   \<and> \<not> rejected (JString (js ''u1'')) \<and> \<not> rejected (JString (js ''card 4242-4242-4242-4242''))
   \<and> well_formed (js ''card 4242-4242-4242-4242'')
   \<and> log_file (store (sample_process tripped_at_0)) = Records []
   \<and> writable (store (sample_process tripped_at_0))
   \<and> (\<exists>r. log_file (store (snd (secure_inquiry toy_runtime sample_ambient
                (sample_request (js ''card 4242-4242-4242-4242'')) (sample_process tripped_at_0))))
              = Records (stored_records (store (sample_process tripped_at_0)) @ [r])
          \<and> userId r = js ''u1''
          \<and> redactedMessage r = sanitizeMessage (js ''card 4242-4242-4242-4242'')
          \<and> decrypt toy_runtime (env_key (sample_process tripped_at_0))
               (originalMessageEncrypted r) = Inr (js ''card 4242-4242-4242-4242''))"
proof -
  let ?m = "js ''card 4242-4242-4242-4242''"
  let ?ps = "sample_process tripped_at_0"
  have o: "state (breaker ?ps) = OPEN"
    by (simp add: sample_process_fields tripped_at_0_def recordFailure_def new_CircuitBreaker_def
        Let_def FAILURE_THRESHOLD_def)
  have n: "length (random_bytes sample_ambient) = 12"
    by (simp add: sample_ambient_def sample_nonce_def)
  have m: "\<not> rejected (JString ?m)"
    by (simp add: not_rejected_string trim_def js_def class_defs)
  have wf: "well_formed ?m"
    by (simp add: js_def is_high_surrogate_def is_low_surrogate_def)
  have f: "log_file (store ?ps) \<noteq> Unreadable" "log_file (store ?ps) \<noteq> NotAnArray"
    by (simp_all add: sample_process_fields)
  note t = secure_inquiry_appends_one_audit_record[OF toy_runtime_round_trips
      sample_process_fields(1) sample_key_hex_valid n sample_request_fields(1)
      sample_user_accepted sample_request_fields(2) m wf f sample_process_fields(3)]
  show ?thesis
    using t toy_runtime_round_trips o sample_process_fields(1,2,3) sample_key_hex_valid n
      sample_user_accepted m wf
    by blast
qed

text \<open>
  C1 as stated fails. A message of the single code unit U+D800 passes the validation and
  one record is appended, but the record's encrypted original decrypts to U+FFFD, not to
  the message. And a message of one space, which is not the empty string, is rejected
  with status 400 and nothing is appended.
\<close>

theorem lone_surrogate_audit_counterexample:
  "secure_inquiry toy_runtime sample_ambient (sample_request (js '' ''))
       (sample_process (new_CircuitBreaker 0))
     = (\<lparr>status = 400,
         payload = ErrorBody (js ''message is required and must be a non-empty string'')\<rparr>,
        sample_process (new_CircuitBreaker 0))
   \<and> \<not> rejected (JString [0xD800])
   \<and> length (stored_records (store (snd (secure_inquiry toy_runtime sample_ambient
         (sample_request [0xD800]) (sample_process (new_CircuitBreaker 0)))))) = 1
   \<and> decrypt toy_runtime (Some sample_key_hex)
        (originalMessageEncrypted (hd (stored_records (store (snd (secure_inquiry toy_runtime
           sample_ambient (sample_request [0xD800]) (sample_process (new_CircuitBreaker 0))))))))
      = Inr [0xFFFD]
   \<and> [0xFFFD] \<noteq> [0xD800 :: jschar]"
proof -
  let ?ps = "sample_process (new_CircuitBreaker 0)"
  let ?run = "secure_inquiry toy_runtime sample_ambient (sample_request [0xD800]) ?ps"
  have n: "length (random_bytes sample_ambient) = 12"
    by (simp add: sample_ambient_def sample_nonce_def)
  have m: "\<not> rejected (JString [0xD800])"
    by (simp add: not_rejected_string trim_def class_defs)
  from decrypt_encrypt[OF toy_runtime_round_trips sample_key_hex_valid n, of "[0xD800]"]
  obtain envelope where
    e: "encrypt toy_runtime (env_key ?ps) (random_bytes sample_ambient) [0xD800] = Inr envelope"
    and d: "decrypt toy_runtime (Some sample_key_hex) envelope = Inr [0xFFFD]"
    unfolding sample_process_fields(1) utf8_lone_surrogate by blast
  from secure_inquiry_store[OF sample_request_fields(1) sample_user_accepted
      sample_request_fields(2) m e]
  obtain r where r: "store (snd ?run) = appendAuditRecord r (store ?ps)"
    "originalMessageEncrypted r = envelope" by blast
  have "log_file (store (snd ?run)) = Records (stored_records (store ?ps) @ [r])"
    unfolding r(1)
    by (rule appendAuditRecord_sound_store) (simp_all add: sample_process_fields)
  then have "stored_records (store (snd ?run)) = [r]"
    by (simp add: stored_records_def sample_process_fields)
  moreover have "secure_inquiry toy_runtime sample_ambient (sample_request (js '' ''))
       (sample_process (new_CircuitBreaker 0))
     = (\<lparr>status = 400,
         payload = ErrorBody (js ''message is required and must be a non-empty string'')\<rparr>,
        sample_process (new_CircuitBreaker 0))"
    using sample_user_accepted
    by (simp add: secure_inquiry_def sample_request_fields)
       (simp add: rejected_def truthy_def trim_def js_def class_defs)
  ultimately show ?thesis using m d r(2) by simp
qed

end
